theory Spec2Isabelle
  imports Main
begin

section \<open>The Oral Messages simulation of byzantine\_gui.py\<close>

text \<open>
  The theory embeds the protocol logic of \<^verbatim>\<open>byzantine_gui.py\<close>: the classes
  \<^verbatim>\<open>Node\<close> and \<^verbatim>\<open>Message\<close>, the helper \<^verbatim>\<open>get_majority\<close> and the
  state-changing methods of \<^verbatim>\<open>ByzantineGUI\<close> (\<^verbatim>\<open>setup_simulation\<close>,
  \<^verbatim>\<open>on_f_changed\<close>, \<^verbatim>\<open>run_next_round\<close>, \<^verbatim>\<open>deliver_messages\<close>,
  \<^verbatim>\<open>on_canvas_click\<close>). Drawing and widget configuration are left out.

  Modelling decisions:
  \<^item> The two strings \<^verbatim>\<open>'Attack'\<close> and \<^verbatim>\<open>'Retreat'\<close> are the datatype \<open>val\<close>;
    a Python value that may also be \<^verbatim>\<open>None\<close> is a \<open>val option\<close>.
  \<^item> A path is a list of node ids, as in the source. The source keys
    \<^verbatim>\<open>message_log\<close> by the text \<^verbatim>\<open>'-'.join(map(str, path))\<close> and reads a path
    back with \<^verbatim>\<open>list(map(int, path_str.split('-')))\<close>; so does the model, with
    \<open>path_str\<close> and \<open>parse_path\<close>.
  \<^item> \<^verbatim>\<open>message_log\<close> is a Python dict, which keeps insertion order; it is an
    association list, \<open>dict_set\<close> being the assignment \<^verbatim>\<open>d[k] = v\<close>,
    \<open>map_of\<close> being \<^verbatim>\<open>d.get(k)\<close> and \<open>dict_has\<close> the test \<^verbatim>\<open>k in d\<close>.
  \<^item> A \<^verbatim>\<open>Message\<close> refers to its two nodes by their ids.
  \<^item> The widget variables read by \<^verbatim>\<open>setup_simulation\<close> are its arguments:
    \<open>f\<close> is \<^verbatim>\<open>f_var.get()\<close>, \<open>n_input\<close> is the outcome of
    \<^verbatim>\<open>int(n_var.get())\<close> (\<open>None\<close> when it raises \<^verbatim>\<open>ValueError\<close>) and \<open>sv\<close> is
    \<^verbatim>\<open>sender_value_var.get()\<close>. The text written to the status label on a failed
    validation is returned as a \<open>config_error\<close>.
  \<^item> The coordinates of the nodes are floating-point numbers; a mouse click is given
    by the predicate \<open>hit\<close> that tells, for each node id, whether the test
    \<^verbatim>\<open>dist_sq <= node.radius**2\<close> succeeds for that node.
\<close>

subsection \<open>Data\<close>

datatype val = Attack | Retreat

type_synonym path = "nat list"

record node =
  node_id :: nat
  is_sender :: bool
  is_faulty :: bool
  message_log :: "(string \<times> val) list"
  final_decision :: "val option"

record message =
  from_node :: nat
  to_node :: nat
  mvalue :: val
  mpath :: path

datatype phase = Setup | Ready | Running | Finished

record sim =
  nodes :: "node list"
  messages :: "message list"
  max_faulty :: nat
  total_nodes :: nat
  current_faulty :: int
  sender_value :: val
  current_round :: nat
  simulation_state :: phase

definition sender_id :: nat where
  "sender_id = 0"

subsection \<open>Dictionaries\<close>

fun dict_set :: "'k \<Rightarrow> 'v \<Rightarrow> ('k \<times> 'v) list \<Rightarrow> ('k \<times> 'v) list" where
  "dict_set k v [] = [(k, v)]"
| "dict_set k v ((k', v') # kvs) =
     (if k' = k then (k, v) # kvs else (k', v') # dict_set k v kvs)"

definition dict_has :: "'k \<Rightarrow> ('k \<times> 'v) list \<Rightarrow> bool" where
  "dict_has k kvs = (k \<in> set (map fst kvs))"

subsection \<open>The textual keys of the logs\<close>

text \<open>
  \<open>path_str p\<close> is \<^verbatim>\<open>'-'.join(map(str, p))\<close> and \<open>parse_path s\<close> is
  \<^verbatim>\<open>list(map(int, s.split('-')))\<close>, on the ids that occur, the natural numbers:
  \<open>str_nat\<close> is \<^verbatim>\<open>str\<close>, \<open>join_dash\<close> is \<^verbatim>\<open>'-'.join\<close>, \<open>split_dash\<close> is
  \<^verbatim>\<open>split('-')\<close>, and \<open>int_of_str\<close> is \<^verbatim>\<open>int\<close>: the number of a non-empty string
  of decimal digits, and \<open>None\<close>, for \<^verbatim>\<open>ValueError\<close>, on every other string (on the
  empty string, for one). Python's \<^verbatim>\<open>int\<close> also reads a sign, blanks and underscores;
  no key holds any, since \<open>path_str\<close> writes every key.
\<close>

definition digit_char :: "nat \<Rightarrow> char" where
  "digit_char d = ''0123456789'' ! d"

definition is_digit :: "char \<Rightarrow> bool" where
  "is_digit c \<longleftrightarrow> c \<in> set ''0123456789''"

definition digit_val :: "char \<Rightarrow> nat" where
  "digit_val c = of_char c - 48"

fun str_nat :: "nat \<Rightarrow> string" where
  "str_nat n =
     (if n < 10 then [digit_char n] else str_nat (n div 10) @ [digit_char (n mod 10)])"

declare str_nat.simps [simp del]

definition int_of_str :: "string \<Rightarrow> nat option" where
  "int_of_str s =
     (if s \<noteq> [] \<and> (\<forall>c\<in>set s. is_digit c)
      then Some (foldl (\<lambda>a c. 10 * a + digit_val c) 0 s) else None)"

fun join_dash :: "string list \<Rightarrow> string" where
  "join_dash [] = []"
| "join_dash [w] = w"
| "join_dash (w # v # ws) = w @ CHR ''-'' # join_dash (v # ws)"

fun split_dash :: "string \<Rightarrow> string list" where
  "split_dash [] = [[]]"
| "split_dash (c # cs) =
     (if c = CHR ''-'' then [] # split_dash cs
      else (case split_dash cs of [] \<Rightarrow> [[c]] | w # ws \<Rightarrow> (c # w) # ws))"

definition path_str :: "path \<Rightarrow> string" where
  "path_str p = join_dash (map str_nat p)"

definition parse_path :: "string \<Rightarrow> path option" where
  "parse_path s = those (map int_of_str (split_dash s))"

subsection \<open>get\_majority\<close>

text \<open>
  The loop of \<^verbatim>\<open>get_majority\<close> over \<^verbatim>\<open>values\<close>, with the pair of counters
  \<^verbatim>\<open>counts['Attack']\<close>, \<^verbatim>\<open>counts['Retreat']\<close>. A value that is neither string (that is,
  \<^verbatim>\<open>None\<close>) is counted nowhere.
\<close>

fun count_values :: "val option list \<Rightarrow> nat \<times> nat \<Rightarrow> nat \<times> nat" where
  "count_values [] c = c"
| "count_values (v # vs) (a, r) =
     count_values vs
       (if v = Some Attack then (a + 1, r)
        else if v = Some Retreat then (a, r + 1)
        else (a, r))"

text \<open>
  The test \<^verbatim>\<open>counts['Attack'] > len(values) / 2\<close> divides exactly (by 2, in floating
  point), so it is the integer test \<open>length values < 2 * a\<close>.
\<close>

definition get_majority :: "val option list \<Rightarrow> val" where
  "get_majority vals =
     (case count_values vals (0, 0) of
        (a, r) \<Rightarrow> if length vals < 2 * a then Attack else Retreat)"

subsection \<open>Node methods\<close>

definition get_faulty_value :: "node \<Rightarrow> val \<Rightarrow> nat \<Rightarrow> val" where
  "get_faulty_value self original_value target_node_id =
     (if \<not> is_faulty self then original_value
      else if target_node_id mod 2 = 0 then Attack else Retreat)"

text \<open>
  \<^verbatim>\<open>resolve_decision\<close> reads the global node list \<^verbatim>\<open>app.nodes\<close>, here the
  argument \<open>global_nodes\<close>. Its depth \<open>f\<close> counts down to the base case
  \<^verbatim>\<open>f == 0\<close>.
\<close>

fun resolve_decision :: "node list \<Rightarrow> node \<Rightarrow> path \<Rightarrow> nat \<Rightarrow> val option" where
  "resolve_decision global_nodes self pth 0 = map_of (message_log self) (path_str pth)"
| "resolve_decision global_nodes self pth (Suc f) =
     Some (get_majority
       (map_of (message_log self) (path_str pth) #
        map (\<lambda>nd. resolve_decision global_nodes self (pth @ [node_id nd]) f)
          (filter (\<lambda>nd. node_id nd \<noteq> node_id self \<and> node_id nd \<notin> set pth \<and>
                        dict_has (path_str (pth @ [node_id nd])) (message_log self))
             global_nodes)))"

definition run_decision :: "node list \<Rightarrow> nat \<Rightarrow> nat \<Rightarrow> node \<Rightarrow> node" where
  "run_decision global_nodes F sender_node_id self =
     self\<lparr>final_decision := resolve_decision global_nodes self [sender_node_id] F\<rparr>"

subsection \<open>Message delivery\<close>

text \<open>
  \<^verbatim>\<open>msg.to_node.message_log[path_string] = msg.value\<close>: the node that the message
  refers to gets the entry.
\<close>

definition deliver_one :: "message \<Rightarrow> node list \<Rightarrow> node list" where
  "deliver_one msg nds =
     map (\<lambda>nd. if node_id nd = to_node msg
               then nd\<lparr>message_log :=
                      dict_set (path_str (mpath msg)) (mvalue msg) (message_log nd)\<rparr>
               else nd) nds"

definition deliver_messages :: "sim \<Rightarrow> sim" where
  "deliver_messages s = s\<lparr>nodes := fold deliver_one (messages s) (nodes s)\<rparr>"

subsection \<open>The messages of a round\<close>

text \<open>Round 1: the sender sends to every node but itself, with the path \<open>[sender.id]\<close>.\<close>

definition round1_messages :: "val \<Rightarrow> node \<Rightarrow> node list \<Rightarrow> message list" where
  "round1_messages sv sender nds =
     map (\<lambda>nd. \<lparr>from_node = node_id sender, to_node = node_id nd,
                mvalue = get_faulty_value sender sv (node_id nd),
                mpath = [node_id sender]\<rparr>)
       (filter (\<lambda>nd. node_id nd \<noteq> node_id sender) nds)"

datatype py_exception = IndexError | ValueError

text \<open>
  Rounds 2 to F+1: every node relays each entry of its log whose path has length
  \<^verbatim>\<open>current_round - 1\<close> to every node that is neither itself nor on the path.
  \<open>relay_to\<close> is the innermost loop, over the receivers. \<open>log_items\<close> lists the
  entries in the order of the two outer loops, each with its node. \<open>relay_loop\<close> runs
  over them and appends to \<^verbatim>\<open>self.messages\<close>; when a key does not parse,
  \<^verbatim>\<open>int\<close> raises \<^verbatim>\<open>ValueError\<close> and the loop ends with the messages appended so far.
\<close>

definition relay_to :: "node list \<Rightarrow> node \<Rightarrow> path \<Rightarrow> val \<Rightarrow> message list" where
  "relay_to nds sender_node pth v =
     map (\<lambda>receiver_node.
            \<lparr>from_node = node_id sender_node, to_node = node_id receiver_node,
             mvalue = get_faulty_value sender_node v (node_id receiver_node),
             mpath = pth @ [node_id sender_node]\<rparr>)
       (filter (\<lambda>receiver_node. node_id receiver_node \<noteq> node_id sender_node \<and>
                                node_id receiver_node \<notin> set pth) nds)"

definition log_items :: "node list \<Rightarrow> (node \<times> string \<times> val) list" where
  "log_items nds =
     concat (map (\<lambda>sender_node. map (Pair sender_node) (message_log sender_node)) nds)"

fun relay_loop ::
  "nat \<Rightarrow> node list \<Rightarrow> (node \<times> string \<times> val) list \<Rightarrow> message list \<Rightarrow>
   message list \<times> py_exception option" where
  "relay_loop rnd nds [] msgs = (msgs, None)"
| "relay_loop rnd nds ((sender_node, path_s, v) # items) msgs =
     (case parse_path path_s of
        None \<Rightarrow> (msgs, Some ValueError)
      | Some pth \<Rightarrow>
          relay_loop rnd nds items
            (if length pth = rnd - 1 then msgs @ relay_to nds sender_node pth v else msgs))"

definition relay_messages :: "nat \<Rightarrow> node list \<Rightarrow> message list \<times> py_exception option" where
  "relay_messages rnd nds = relay_loop rnd nds (log_items nds) []"

subsection \<open>The simulation\<close>

datatype config_error = NotANumber | NBelowMinimum nat

datatype round_result = Completed | Ignored | Raised py_exception

datatype click_result = Toggled | Missed | WrongPhase | SenderImmune | QuotaExceeded

definition new_node :: "nat \<Rightarrow> node" where
  "new_node i =
     \<lparr>node_id = i, is_sender = False, is_faulty = False, message_log = [],
      final_decision = None\<rparr>"

text \<open>
  \<^verbatim>\<open>setup_simulation\<close> stores \<open>f\<close> before it validates. Both failing branches empty
  \<^verbatim>\<open>nodes\<close> and \<^verbatim>\<open>messages\<close> and return; they assign nothing else. On success there
  are \<open>n \<ge> 3 f + 1 \<ge> 1\<close> nodes, so the index \<open>sender_id\<close> is in range.
\<close>

definition setup_simulation ::
  "nat \<Rightarrow> int option \<Rightarrow> val \<Rightarrow> sim \<Rightarrow> config_error option \<times> sim" where
  "setup_simulation f n_input sv s =
     (let s1 = s\<lparr>max_faulty := f\<rparr>;
          min_n = 3 * max_faulty s1 + 1
      in case n_input of
           None \<Rightarrow> (Some NotANumber, s1\<lparr>nodes := [], messages := []\<rparr>)
         | Some n \<Rightarrow>
             if n < int min_n
             then (Some (NBelowMinimum min_n), s1\<lparr>nodes := [], messages := []\<rparr>)
             else
               (let nds = map new_node [0..<nat n]
                in (None,
                    s1\<lparr>total_nodes := nat n, sender_value := sv,
                       nodes := nds[sender_id := (nds ! sender_id)\<lparr>is_sender := True\<rparr>],
                       messages := [], current_round := 0, current_faulty := 0,
                       simulation_state := Ready\<rparr>)))"

text \<open>\<^verbatim>\<open>on_f_changed\<close> writes the minimum \<open>3 f + 1\<close> into the entry for N and sets up.\<close>

definition on_f_changed :: "nat \<Rightarrow> val \<Rightarrow> sim \<Rightarrow> config_error option \<times> sim" where
  "on_f_changed f sv s =
     setup_simulation f (Some (int (3 * f + 1))) sv (s\<lparr>max_faulty := f\<rparr>)"

text \<open>
  The decisions at the end of the last round. \<^verbatim>\<open>resolve_decision\<close> reads the ids of
  \<^verbatim>\<open>app.nodes\<close> and the log of its own node; the loop assigns \<^verbatim>\<open>final_decision\<close> only,
  so every call sees the node list as it is before the loop.
\<close>

definition decide_all :: "nat \<Rightarrow> node list \<Rightarrow> node list" where
  "decide_all F nds =
     map (\<lambda>nd. if \<not> is_faulty nd then run_decision nds F sender_id nd else nd) nds"

definition finish_round :: "sim \<Rightarrow> sim" where
  "finish_round s =
     (if current_round s > max_faulty s
      then s\<lparr>simulation_state := Finished, nodes := decide_all (max_faulty s) (nodes s)\<rparr>
      else s)"

text \<open>
  The body of \<^verbatim>\<open>run_next_round\<close> after the phase test. In round 1 the read
  \<^verbatim>\<open>self.nodes[self.sender_id]\<close> raises \<^verbatim>\<open>IndexError\<close> on an empty node list, after the
  round counter and the message list have been assigned. An exception ends the method
  before the delivery and the decisions.
\<close>

definition round_body :: "sim \<Rightarrow> round_result \<times> sim" where
  "round_body s0 =
     (let s1 = s0\<lparr>current_round := current_round s0 + 1, messages := []\<rparr>
      in if current_round s1 = 1 then
           (if sender_id < length (nodes s1)
            then (Completed,
                  finish_round (deliver_messages
                    (s1\<lparr>messages :=
                          round1_messages (sender_value s1) (nodes s1 ! sender_id) (nodes s1)\<rparr>)))
            else (Raised IndexError, s1))
         else if current_round s1 \<le> max_faulty s1 + 1 then
           (case relay_messages (current_round s1) (nodes s1) of
              (msgs, Some e) \<Rightarrow> (Raised e, s1\<lparr>messages := msgs\<rparr>)
            | (msgs, None) \<Rightarrow>
                (Completed, finish_round (deliver_messages (s1\<lparr>messages := msgs\<rparr>))))
         else (Completed, finish_round (deliver_messages s1)))"

definition run_next_round :: "sim \<Rightarrow> round_result \<times> sim" where
  "run_next_round s =
     (if simulation_state s = Finished \<or> simulation_state s \<noteq> Running
      then (if simulation_state s = Ready
            then round_body (s\<lparr>simulation_state := Running\<rparr>)
            else (Ignored, s))
      else round_body s)"

text \<open>
  The loop of \<^verbatim>\<open>on_canvas_click\<close>: the first node that the click hits is the one
  that counts; on the sender the method returns, on another node it toggles the flag if
  the quota allows and leaves the loop.
\<close>

fun click_nodes ::
  "(nat \<Rightarrow> bool) \<Rightarrow> nat \<Rightarrow> int \<Rightarrow> node list \<Rightarrow> click_result \<times> node list \<times> int" where
  "click_nodes hit mf cf [] = (Missed, [], cf)"
| "click_nodes hit mf cf (nd # nds) =
     (if hit (node_id nd) then
        (if is_sender nd then (SenderImmune, nd # nds, cf)
         else if is_faulty nd then (Toggled, nd\<lparr>is_faulty := False\<rparr> # nds, cf - 1)
         else if cf < int mf then (Toggled, nd\<lparr>is_faulty := True\<rparr> # nds, cf + 1)
         else (QuotaExceeded, nd # nds, cf))
      else (case click_nodes hit mf cf nds of
              (res, nds', cf') \<Rightarrow> (res, nd # nds', cf')))"

definition on_canvas_click :: "(nat \<Rightarrow> bool) \<Rightarrow> sim \<Rightarrow> click_result \<times> sim" where
  "on_canvas_click hit s =
     (if simulation_state s \<noteq> Ready then (WrongPhase, s)
      else (case click_nodes hit (max_faulty s) (current_faulty s) (nodes s) of
              (res, nds, cf) \<Rightarrow> (res, s\<lparr>nodes := nds, current_faulty := cf\<rparr>)))"

text \<open>
  The fields assigned by \<^verbatim>\<open>__init__\<close>. The attribute \<^verbatim>\<open>sender_value\<close> is created by
  the first setup, which \<^verbatim>\<open>__init__\<close> runs through \<^verbatim>\<open>on_f_changed\<close> with the initial
  widget values F = 1 and \<open>Attack\<close>; until then the field holds the initial value of the
  widget.
\<close>

definition init_fields :: sim where
  "init_fields =
     \<lparr>nodes = [], messages = [], max_faulty = 1, total_nodes = 4, current_faulty = 0,
      sender_value = Attack, current_round = 0, simulation_state = Setup\<rparr>"

definition gui_init :: sim where
  "gui_init = snd (on_f_changed 1 Attack init_fields)"

text \<open>The states that a sequence of button presses and clicks can produce.\<close>

inductive reachable :: "sim \<Rightarrow> bool" where
  r_init: "reachable gui_init"
| r_setup: "reachable s \<Longrightarrow> reachable (snd (setup_simulation f n_input sv s))"
| r_f_changed: "reachable s \<Longrightarrow> reachable (snd (on_f_changed f sv s))"
| r_click: "reachable s \<Longrightarrow> reachable (snd (on_canvas_click hit s))"
| r_round: "reachable s \<Longrightarrow> reachable (snd (run_next_round s))"

text \<open>\<open>rounds k\<close> presses the button for the next round \<open>k\<close> times.\<close>

fun rounds :: "nat \<Rightarrow> sim \<Rightarrow> sim" where
  "rounds 0 s = s"
| "rounds (Suc k) s = rounds k (snd (run_next_round s))"

subsection \<open>Invariants of the reachable states\<close>

text \<open>
  The definitions of this subsection are not part of the program; they describe its
  reachable states.

  \<open>valid_path n l p\<close>: the path \<open>p\<close> starts at the sender, repeats no id, stays
  within the \<open>n\<close> nodes and avoids the node \<open>l\<close> that holds it in its log.
\<close>

definition valid_path :: "nat \<Rightarrow> nat \<Rightarrow> path \<Rightarrow> bool" where
  "valid_path n l p \<longleftrightarrow>
     p \<noteq> [] \<and> hd p = sender_id \<and> distinct p \<and> (\<forall>x\<in>set p. x < n) \<and> l \<notin> set p"

definition flags :: "node list \<Rightarrow> nat \<Rightarrow> bool" where
  "flags nds j \<longleftrightarrow> j < length nds \<and> is_faulty (nds ! j)"

text \<open>
  \<open>relayed F sv l rp\<close> is the value that node \<open>l\<close> receives along the path whose
  reversal is \<open>rp\<close>, when \<open>F\<close> tells the faulty nodes and the sender starts with \<open>sv\<close>:
  the last relay \<open>j\<close> passes on what it received itself, or lies by the parity of \<open>l\<close>.
\<close>

fun relayed :: "(nat \<Rightarrow> bool) \<Rightarrow> val \<Rightarrow> nat \<Rightarrow> nat list \<Rightarrow> val" where
  "relayed F sv l [] = sv"
| "relayed F sv l (j # rp) =
     (if F j then (if l mod 2 = 0 then Attack else Retreat) else relayed F sv j rp)"

text \<open>The log of the node with id \<open>i\<close> after the messages \<open>ms\<close> have been delivered.\<close>

definition received ::
  "nat \<Rightarrow> message list \<Rightarrow> (string \<times> val) list \<Rightarrow> (string \<times> val) list" where
  "received i ms lg =
     fold (\<lambda>m lg. if to_node m = i then dict_set (path_str (mpath m)) (mvalue m) lg else lg)
       ms lg"

text \<open>
  \<open>logs_ok nds sv r\<close>: after round \<open>r\<close>, every key of a log is the text of a path,
  and the log of node \<open>l\<close> holds exactly the valid paths of length at most \<open>r\<close>, each
  with the relayed value.
\<close>

definition logs_ok :: "node list \<Rightarrow> val \<Rightarrow> nat \<Rightarrow> bool" where
  "logs_ok nds sv r \<longleftrightarrow>
     (\<forall>l<length nds.
        (\<forall>k\<in>set (map fst (message_log (nds ! l))). \<exists>p. k = path_str p) \<and>
        (\<forall>p. map_of (message_log (nds ! l)) (path_str p) =
          (if valid_path (length nds) l p \<and> length p \<le> r
           then Some (relayed (flags nds) sv l (rev p)) else None)))"

definition config_ok :: "sim \<Rightarrow> bool" where
  "config_ok s \<longleftrightarrow>
     map node_id (nodes s) = [0..<length (nodes s)] \<and>
     map is_sender (nodes s) = map (\<lambda>i. i = sender_id) [0..<length (nodes s)] \<and>
     3 * max_faulty s + 1 \<le> length (nodes s) \<and>
     \<not> is_faulty (nodes s ! sender_id) \<and>
     current_faulty s = int (length (filter is_faulty (nodes s))) \<and>
     length (filter is_faulty (nodes s)) \<le> max_faulty s \<and>
     (\<forall>nd\<in>set (nodes s). distinct (map fst (message_log nd)))"

definition phase_ok :: "sim \<Rightarrow> bool" where
  "phase_ok s \<longleftrightarrow>
     (case simulation_state s of
        Setup \<Rightarrow> False
      | Ready \<Rightarrow>
          current_round s = 0 \<and> messages s = [] \<and> total_nodes s = length (nodes s) \<and>
          (\<forall>nd\<in>set (nodes s). final_decision nd = None)
      | Running \<Rightarrow> 1 \<le> current_round s \<and> current_round s \<le> max_faulty s
      | Finished \<Rightarrow>
          current_round s = max_faulty s + 1 \<and>
          (\<forall>nd\<in>set (nodes s). \<not> is_faulty nd \<longrightarrow>
             final_decision nd =
               resolve_decision (nodes s) nd [sender_id] (max_faulty s)))"

definition messages_ok :: "sim \<Rightarrow> bool" where
  "messages_ok s \<longleftrightarrow>
     (\<forall>m\<in>set (messages s).
        length (mpath m) = current_round s \<and> distinct (mpath m) \<and>
        to_node m \<notin> set (mpath m) \<and> hd (mpath m) = sender_id \<and> to_node m \<noteq> sender_id)"

text \<open>
  The invariant: a state without nodes has no messages, and a state with nodes is a
  consistent configuration with the logs of its round.
\<close>

definition sim_inv :: "sim \<Rightarrow> bool" where
  "sim_inv s \<longleftrightarrow>
     (if nodes s = [] then messages s = []
      else config_ok s \<and> phase_ok s \<and> messages_ok s \<and>
           logs_ok (nodes s) (sender_value s) (current_round s))"

section \<open>Properties\<close>

subsection \<open>Majority and fault injection\<close>

lemma count_values_fst:
  "fst (count_values vs (a, r)) = a + count_list vs (Some Attack)"
  by (induction vs "(a, r)" arbitrary: a r rule: count_values.induct) auto

lemma get_majority_iff:
  "get_majority vs = Attack \<longleftrightarrow> length vs < 2 * count_list vs (Some Attack)"
  using count_values_fst [of vs 0 0]
  by (auto simp: get_majority_def split: prod.splits)

lemma count_list_two_le:
  "count_list vs (Some Attack) + count_list vs (Some Retreat) \<le> length vs"
  by (induction vs) auto

text \<open>
  C3. \<^verbatim>\<open>get_majority\<close> returns the value whose count is more than half of the number
  of values, and \<open>Retreat\<close> when no value has such a majority, in particular on a tie and
  on the empty list: \<open>get_majority [] = Retreat\<close>,
  \<open>get_majority [Attack, Attack, Retreat] = Attack\<close> and
  \<open>get_majority [Attack, Retreat] = Retreat\<close>.
\<close>

theorem get_majority_contract:
  "(length vs < 2 * count_list vs (Some v) \<longrightarrow> get_majority vs = v) \<and>
   ((\<forall>w. \<not> length ws < 2 * count_list ws (Some w)) \<longrightarrow> get_majority ws = Retreat) \<and>
   get_majority [] = Retreat \<and>
   get_majority [Some Attack, Some Attack, Some Retreat] = Attack \<and>
   get_majority [Some Attack, Some Retreat] = Retreat"
proof (intro conjI impI)
  assume maj: "length vs < 2 * count_list vs (Some v)"
  show "get_majority vs = v"
  proof (cases v)
    case Attack
    with maj show ?thesis by (simp add: get_majority_iff)
  next
    case Retreat
    with maj count_list_two_le [of vs]
    have "\<not> length vs < 2 * count_list vs (Some Attack)" by simp
    then have "get_majority vs \<noteq> Attack" by (simp add: get_majority_iff)
    with Retreat show ?thesis by (cases "get_majority vs") simp_all
  qed
next
  assume "\<forall>w. \<not> length ws < 2 * count_list ws (Some w)"
  then have "get_majority ws \<noteq> Attack" by (simp add: get_majority_iff)
  then show "get_majority ws = Retreat" by (cases "get_majority ws") simp_all
qed (simp_all add: get_majority_def)

theorem get_majority_contract_witness:
  "length [Some Attack, Some Attack, Some Retreat]
     < 2 * count_list [Some Attack, Some Attack, Some Retreat] (Some Attack) \<and>
   get_majority [Some Attack, Some Attack, Some Retreat] = Attack \<and>
   (\<forall>w. \<not> length [Some Attack, None, Some Retreat]
     < 2 * count_list [Some Attack, None, Some Retreat] (Some w)) \<and>
   get_majority [Some Attack, None, Some Retreat] = Retreat"
proof -
  have a: "length [Some Attack, Some Attack, Some Retreat]
     < 2 * count_list [Some Attack, Some Attack, Some Retreat] (Some Attack)"
    by simp
  have b: "\<forall>w. \<not> length [Some Attack, None, Some Retreat]
     < 2 * count_list [Some Attack, None, Some Retreat] (Some w)"
    by simp
  from a b get_majority_contract
    [of "[Some Attack, Some Attack, Some Retreat]" Attack "[Some Attack, None, Some Retreat]"]
  show ?thesis by blast
qed

text \<open>
  C6. An honest node transmits the true value unchanged. A faulty node transmits a value
  that depends on the id of the recipient only, not on the true value: \<open>Attack\<close> to a
  recipient with an even id, \<open>Retreat\<close> to one with an odd id, so two recipients with
  consecutive ids get different values.
\<close>

theorem get_faulty_value_contract:
  "(\<not> is_faulty self \<longrightarrow> get_faulty_value self v r = v) \<and>
   (is_faulty self \<longrightarrow>
      get_faulty_value self v r = (if even r then Attack else Retreat) \<and>
      get_faulty_value self v r = get_faulty_value self v' r \<and>
      get_faulty_value self v (Suc r) \<noteq> get_faulty_value self v r)"
proof -
  have alt: "Suc r mod 2 = 0 \<longleftrightarrow> r mod 2 \<noteq> 0"
    by presburger
  show ?thesis
    by (simp add: get_faulty_value_def even_iff_mod_2_eq_zero alt)
qed

theorem get_faulty_value_contract_witness:
  "get_faulty_value
     \<lparr>node_id = 1, is_sender = False, is_faulty = False, message_log = [],
      final_decision = None\<rparr> Attack 3 = Attack \<and>
   get_faulty_value
     \<lparr>node_id = 1, is_sender = False, is_faulty = True, message_log = [],
      final_decision = None\<rparr> Attack 3 = Retreat \<and>
   get_faulty_value
     \<lparr>node_id = 1, is_sender = False, is_faulty = True, message_log = [],
      final_decision = None\<rparr> Retreat 4 = Attack"
  using
    get_faulty_value_contract
      [of "\<lparr>node_id = 1, is_sender = False, is_faulty = False, message_log = [],
            final_decision = None\<rparr>" Attack 3 Attack]
    get_faulty_value_contract
      [of "\<lparr>node_id = 1, is_sender = False, is_faulty = True, message_log = [],
            final_decision = None\<rparr>" Attack 3 Attack]
    get_faulty_value_contract
      [of "\<lparr>node_id = 1, is_sender = False, is_faulty = True, message_log = [],
            final_decision = None\<rparr>" Retreat 4 Attack]
  by simp

subsection \<open>The textual keys determine the paths\<close>

lemma digit_char_props:
  assumes "d < 10"
  shows "is_digit (digit_char d) \<and> digit_val (digit_char d) = d \<and>
     digit_char d \<noteq> CHR ''-''"
proof -
  from assms have "d \<in> {0, 1, 2, 3, 4, 5, 6, 7, 8, 9}" by auto
  then show ?thesis
    by (auto simp: digit_char_def is_digit_def digit_val_def)
qed

lemma digit_char_simps:
  "digit_char 0 = CHR ''0''" "digit_char 1 = CHR ''1''" "digit_char 2 = CHR ''2''"
  "digit_char 3 = CHR ''3''" "digit_char 4 = CHR ''4''" "digit_char 5 = CHR ''5''"
  "digit_char 6 = CHR ''6''" "digit_char 7 = CHR ''7''" "digit_char 8 = CHR ''8''"
  "digit_char 9 = CHR ''9''" "digit_char (Suc 0) = CHR ''1''"
  by (simp_all add: digit_char_def)

lemma str_nat_digits: "str_nat n \<noteq> [] \<and> (\<forall>c\<in>set (str_nat n). is_digit c \<and> c \<noteq> CHR ''-'')"
proof (induction n rule: str_nat.induct)
  case (1 n)
  show ?case
  proof (cases "n < 10")
    case True
    then show ?thesis using digit_char_props [of n] by (simp add: str_nat.simps [of n])
  next
    case False
    with 1 digit_char_props [of "n mod 10"] show ?thesis
      by (auto simp: str_nat.simps [of n])
  qed
qed

lemma foldl_str_nat: "foldl (\<lambda>a c. 10 * a + digit_val c) 0 (str_nat n) = n"
proof (induction n rule: str_nat.induct)
  case (1 n)
  show ?case
  proof (cases "n < 10")
    case True
    then show ?thesis using digit_char_props [of n] by (simp add: str_nat.simps [of n])
  next
    case False
    with 1 digit_char_props [of "n mod 10"] show ?thesis
      by (simp add: str_nat.simps [of n])
  qed
qed

lemma int_of_str_str_nat: "int_of_str (str_nat n) = Some n"
  using str_nat_digits [of n] by (simp add: int_of_str_def foldl_str_nat)

lemma split_dash_word:
  "CHR ''-'' \<notin> set w \<Longrightarrow> split_dash (w @ CHR ''-'' # cs) = w # split_dash cs"
  by (induction w) auto

lemma split_dash_last: "CHR ''-'' \<notin> set w \<Longrightarrow> split_dash w = [w]"
  by (induction w) auto

lemma split_join:
  "ws \<noteq> [] \<Longrightarrow> \<forall>w\<in>set ws. CHR ''-'' \<notin> set w \<Longrightarrow> split_dash (join_dash ws) = ws"
  by (induction ws rule: join_dash.induct) (simp_all add: split_dash_word split_dash_last)

lemma those_map_Some: "those (map (\<lambda>x. Some (g x)) xs) = Some (map g xs)"
  by (induction xs) simp_all

lemma path_roundtrip: "p \<noteq> [] \<Longrightarrow> parse_path (path_str p) = Some p"
proof -
  assume "p \<noteq> []"
  then have "split_dash (join_dash (map str_nat p)) = map str_nat p"
    using str_nat_digits by (intro split_join) auto
  then show ?thesis
    using those_map_Some [of id p]
    by (simp add: parse_path_def path_str_def comp_def int_of_str_str_nat)
qed

lemma path_str_Nil_iff: "path_str p = [] \<longleftrightarrow> p = []"
proof (cases p)
  case Nil
  then show ?thesis by (simp add: path_str_def)
next
  case (Cons x xs)
  then show ?thesis using str_nat_digits [of x] by (cases xs) (simp_all add: path_str_def)
qed

lemma path_str_inj: "path_str p = path_str q \<Longrightarrow> p = q"
proof (cases "p = []")
  case True
  assume "path_str p = path_str q"
  with True show ?thesis using path_str_Nil_iff [of q] by (simp add: path_str_def)
next
  case False
  assume eq: "path_str p = path_str q"
  with False have q: "q \<noteq> []"
    using path_str_Nil_iff [of p] path_str_Nil_iff [of q] by auto
  have "Some p = parse_path (path_str p)" using False by (simp add: path_roundtrip)
  also have "\<dots> = parse_path (path_str q)" by (simp only: eq)
  also have "\<dots> = Some q" using q by (rule path_roundtrip)
  finally show ?thesis by simp
qed

lemma path_str_eq_iff [simp]: "path_str p = path_str q \<longleftrightarrow> p = q"
  using path_str_inj by blast

subsection \<open>Evaluation of concrete runs\<close>

lemma rounds_numeral:
  "rounds (numeral k) s = rounds (pred_numeral k) (snd (run_next_round s))"
  by (simp add: numeral_eq_Suc)

lemma resolve_decision_numeral:
  "resolve_decision global_nodes self pth (numeral k) =
     Some (get_majority
       (map_of (message_log self) (path_str pth) #
        map (\<lambda>nd. resolve_decision global_nodes self (pth @ [node_id nd]) (pred_numeral k))
          (filter (\<lambda>nd. node_id nd \<noteq> node_id self \<and> node_id nd \<notin> set pth \<and>
                        dict_has (path_str (pth @ [node_id nd])) (message_log self))
             global_nodes)))"
  by (simp add: numeral_eq_Suc)

lemma gui_init_eq:
  "gui_init =
     \<lparr>nodes = [\<lparr>node_id = 0, is_sender = True, is_faulty = False, message_log = [],
                final_decision = None\<rparr>, new_node 1, new_node 2, new_node 3],
      messages = [], max_faulty = 1, total_nodes = 4, current_faulty = 0,
      sender_value = Attack, current_round = 0, simulation_state = Ready\<rparr>"
  by (simp add: gui_init_def on_f_changed_def setup_simulation_def init_fields_def Let_def
      new_node_def sender_id_def upt_rec)


lemma run_honest_eq:
  "rounds 2 gui_init =
   \<lparr>nodes =
      [\<lparr>node_id = 0, is_sender = True, is_faulty = False, message_log = [],
        final_decision = Some Retreat\<rparr>,
       \<lparr>node_id = 1, is_sender = False, is_faulty = False,
        message_log = [(''0'', Attack), (''0-2'', Attack), (''0-3'', Attack)],
        final_decision = Some Attack\<rparr>,
       \<lparr>node_id = 2, is_sender = False, is_faulty = False,
        message_log = [(''0'', Attack), (''0-1'', Attack), (''0-3'', Attack)],
        final_decision = Some Attack\<rparr>,
       \<lparr>node_id = 3, is_sender = False, is_faulty = False,
        message_log = [(''0'', Attack), (''0-1'', Attack), (''0-2'', Attack)],
        final_decision = Some Attack\<rparr>],
    messages =
      [\<lparr>from_node = 1, to_node = 2, mvalue = Attack, mpath = [0, 1]\<rparr>,
       \<lparr>from_node = 1, to_node = 3, mvalue = Attack, mpath = [0, 1]\<rparr>,
       \<lparr>from_node = 2, to_node = 1, mvalue = Attack, mpath = [0, 2]\<rparr>,
       \<lparr>from_node = 2, to_node = 3, mvalue = Attack, mpath = [0, 2]\<rparr>,
       \<lparr>from_node = 3, to_node = 1, mvalue = Attack, mpath = [0, 3]\<rparr>,
       \<lparr>from_node = 3, to_node = 2, mvalue = Attack, mpath = [0, 3]\<rparr>],
    max_faulty = 1, total_nodes = 4, current_faulty = 0,
    sender_value = Attack, current_round = 2, simulation_state = Finished\<rparr>"
  by (simp add: gui_init_eq new_node_def rounds_numeral resolve_decision_numeral
      run_next_round_def round_body_def finish_round_def deliver_messages_def deliver_one_def
      round1_messages_def relay_messages_def relay_to_def log_items_def decide_all_def
      run_decision_def get_faulty_value_def get_majority_def dict_has_def sender_id_def
      Let_def path_str_def str_nat.simps digit_char_simps parse_path_def int_of_str_def
      is_digit_def digit_val_def)

lemma run_faulty_eq:
  "rounds 2 (snd (on_canvas_click (\<lambda>j. j = 1) gui_init)) =
   \<lparr>nodes =
      [\<lparr>node_id = 0, is_sender = True, is_faulty = False, message_log = [],
        final_decision = Some Retreat\<rparr>,
       \<lparr>node_id = 1, is_sender = False, is_faulty = True,
        message_log = [(''0'', Attack), (''0-2'', Attack), (''0-3'', Attack)],
        final_decision = None\<rparr>,
       \<lparr>node_id = 2, is_sender = False, is_faulty = False,
        message_log = [(''0'', Attack), (''0-1'', Attack), (''0-3'', Attack)],
        final_decision = Some Attack\<rparr>,
       \<lparr>node_id = 3, is_sender = False, is_faulty = False,
        message_log = [(''0'', Attack), (''0-1'', Retreat), (''0-2'', Attack)],
        final_decision = Some Attack\<rparr>],
    messages =
      [\<lparr>from_node = 1, to_node = 2, mvalue = Attack, mpath = [0, 1]\<rparr>,
       \<lparr>from_node = 1, to_node = 3, mvalue = Retreat, mpath = [0, 1]\<rparr>,
       \<lparr>from_node = 2, to_node = 1, mvalue = Attack, mpath = [0, 2]\<rparr>,
       \<lparr>from_node = 2, to_node = 3, mvalue = Attack, mpath = [0, 2]\<rparr>,
       \<lparr>from_node = 3, to_node = 1, mvalue = Attack, mpath = [0, 3]\<rparr>,
       \<lparr>from_node = 3, to_node = 2, mvalue = Attack, mpath = [0, 3]\<rparr>],
    max_faulty = 1, total_nodes = 4, current_faulty = 1,
    sender_value = Attack, current_round = 2, simulation_state = Finished\<rparr>"
  by (simp add: gui_init_eq new_node_def rounds_numeral resolve_decision_numeral
      on_canvas_click_def
      run_next_round_def round_body_def finish_round_def deliver_messages_def deliver_one_def
      round1_messages_def relay_messages_def relay_to_def log_items_def decide_all_def
      run_decision_def get_faulty_value_def get_majority_def dict_has_def sender_id_def
      Let_def path_str_def str_nat.simps digit_char_simps parse_path_def int_of_str_def
      is_digit_def digit_val_def)

subsection \<open>Fields that a round leaves alone\<close>

lemma length_deliver_one [simp]: "length (deliver_one m nds) = length nds"
  by (simp add: deliver_one_def)

lemma length_fold_deliver_one [simp]: "length (fold deliver_one ms nds) = length nds"
  by (induction ms arbitrary: nds) simp_all

lemma length_decide_all [simp]: "length (decide_all F nds) = length nds"
  by (simp add: decide_all_def)

lemma finish_round_fields [simp]:
  "current_round (finish_round s) = current_round s"
  "max_faulty (finish_round s) = max_faulty s"
  "length (nodes (finish_round s)) = length (nodes s)"
  "messages (finish_round s) = messages s"
  "sender_value (finish_round s) = sender_value s"
  "current_faulty (finish_round s) = current_faulty s"
  "total_nodes (finish_round s) = total_nodes s"
  by (simp_all add: finish_round_def)


lemma deliver_messages_fields [simp]:
  "current_round (deliver_messages s) = current_round s"
  "max_faulty (deliver_messages s) = max_faulty s"
  "length (nodes (deliver_messages s)) = length (nodes s)"
  "messages (deliver_messages s) = messages s"
  "sender_value (deliver_messages s) = sender_value s"
  "current_faulty (deliver_messages s) = current_faulty s"
  "total_nodes (deliver_messages s) = total_nodes s"
  "simulation_state (deliver_messages s) = simulation_state s"
  by (simp_all add: deliver_messages_def)





subsection \<open>The decisions of the last round\<close>

lemma resolve_decision_ids:
  assumes "map node_id gn = map node_id gn'" "node_id self = node_id self'"
    "message_log self = message_log self'"
  shows "resolve_decision gn self p f = resolve_decision gn' self' p f"
proof (induction f arbitrary: p)
  case 0
  with assms show ?case by simp
next
  case (Suc f)
  let ?P = "\<lambda>j. j \<noteq> node_id self \<and> j \<notin> set p \<and>
      dict_has (path_str (p @ [j])) (message_log self)"
  let ?g = "\<lambda>j. resolve_decision gn self (p @ [j]) f"
  let ?g' = "\<lambda>j. resolve_decision gn' self' (p @ [j]) f"
  have "map (\<lambda>nd. ?g (node_id nd)) (filter (\<lambda>nd. ?P (node_id nd)) gn)
      = map ?g (filter ?P (map node_id gn))"
    by (simp add: filter_map comp_def)
  also have "\<dots> = map ?g' (filter ?P (map node_id gn'))"
    using Suc.IH assms(1) by simp
  also have "\<dots> = map (\<lambda>nd. ?g' (node_id nd)) (filter (\<lambda>nd. ?P (node_id nd)) gn')"
    by (simp add: filter_map comp_def)
  finally show ?case using assms(2,3) by simp
qed

lemma decide_all_ids [simp]: "map node_id (decide_all F nds) = map node_id nds"
  by (simp add: decide_all_def run_decision_def)

lemma decide_all_decision:
  assumes "nd' \<in> set (decide_all F nds)" "\<not> is_faulty nd'"
  shows "final_decision nd' = resolve_decision (decide_all F nds) nd' [sender_id] F"
proof -
  from assms(1) obtain nd where nd: "nd \<in> set nds"
    "nd' = (if \<not> is_faulty nd then run_decision nds F sender_id nd else nd)"
    by (auto simp: decide_all_def)
  with assms(2) have nf: "\<not> is_faulty nd" by (auto split: if_splits)
  with nd have eq: "nd' = run_decision nds F sender_id nd" by simp
  have "resolve_decision (decide_all F nds) nd' [sender_id] F
      = resolve_decision nds nd [sender_id] F"
    by (rule resolve_decision_ids) (simp_all add: eq run_decision_def)
  with eq show ?thesis by (simp add: run_decision_def)
qed


subsection \<open>Rejected operations\<close>

lemma click_nodes_rejected:
  "fst (click_nodes hit mf cf nds) \<noteq> Toggled \<Longrightarrow>
   snd (click_nodes hit mf cf nds) = (nds, cf)"
  by (induction nds) (auto split: prod.splits if_splits)

lemma on_canvas_click_rejected:
  "fst (on_canvas_click hit s) \<noteq> Toggled \<Longrightarrow> snd (on_canvas_click hit s) = s"
  using click_nodes_rejected [of hit "max_faulty s" "current_faulty s" "nodes s"]
  by (auto simp: on_canvas_click_def split: prod.splits)

lemma round_body_not_ignored: "fst (round_body s) \<noteq> Ignored"
  by (simp add: round_body_def Let_def split: prod.splits option.splits)

lemma run_next_round_Ignored:
  "fst (run_next_round s) = Ignored \<Longrightarrow> snd (run_next_round s) = s"
  by (auto simp: run_next_round_def round_body_not_ignored split: if_splits)

lemma setup_simulation_rejected:
  "fst (setup_simulation f n_input sv s) \<noteq> None \<Longrightarrow>
   snd (setup_simulation f n_input sv s) = s\<lparr>max_faulty := f, nodes := [], messages := []\<rparr>"
  by (auto simp: setup_simulation_def Let_def split: option.splits if_splits)

lemma gui_init_finished: "simulation_state (rounds 2 gui_init) = Finished"
  unfolding run_honest_eq by simp

text \<open>
  C7, as the claim states it, fails for a rejected setup: the failing branches of
  \<^verbatim>\<open>setup_simulation\<close> empty the node list. From the state that \<^verbatim>\<open>__init__\<close>
  leaves, a setup with F = 1 and N = 3 is rejected and leaves a state without nodes.
\<close>

theorem rejected_setup_counterexample:
  "fst (setup_simulation 1 (Some 3) Attack gui_init) = Some (NBelowMinimum 4) \<and>
   nodes gui_init \<noteq> [] \<and>
   nodes (snd (setup_simulation 1 (Some 3) Attack gui_init)) = [] \<and>
   snd (setup_simulation 1 (Some 3) Attack gui_init) \<noteq> gui_init"
  by (simp add: gui_init_eq setup_simulation_def Let_def)


text \<open>
  C7, amended. A click outside the Ready phase, a click on the sender and a click that
  would exceed the quota of faulty nodes leave the state as it was; so does a press of the
  round button that is ignored, as every press in the Finished phase is. A rejected setup
  stores the requested F and empties the node list and the message list; the round
  counter, the sender value, the counter of faulty nodes and the stored N stay as they
  were.
\<close>

theorem rejected_operations:
  "(simulation_state s \<noteq> Ready \<longrightarrow> on_canvas_click hit s = (WrongPhase, s)) \<and>
   (fst (on_canvas_click hit s) \<in> {WrongPhase, SenderImmune, QuotaExceeded} \<longrightarrow>
      snd (on_canvas_click hit s) = s) \<and>
   (simulation_state s = Finished \<longrightarrow> run_next_round s = (Ignored, s)) \<and>
   (fst (run_next_round s) = Ignored \<longrightarrow> snd (run_next_round s) = s) \<and>
   (fst (setup_simulation f n_input sv s) \<noteq> None \<longrightarrow>
      nodes (snd (setup_simulation f n_input sv s)) = [] \<and>
      messages (snd (setup_simulation f n_input sv s)) = [] \<and>
      max_faulty (snd (setup_simulation f n_input sv s)) = f \<and>
      current_round (snd (setup_simulation f n_input sv s)) = current_round s \<and>
      sender_value (snd (setup_simulation f n_input sv s)) = sender_value s \<and>
      current_faulty (snd (setup_simulation f n_input sv s)) = current_faulty s \<and>
      total_nodes (snd (setup_simulation f n_input sv s)) = total_nodes s)"
proof (intro conjI impI)
  assume "simulation_state s \<noteq> Ready"
  then show "on_canvas_click hit s = (WrongPhase, s)"
    by (simp add: on_canvas_click_def)
next
  assume "fst (on_canvas_click hit s) \<in> {WrongPhase, SenderImmune, QuotaExceeded}"
  then have "fst (on_canvas_click hit s) \<noteq> Toggled" by auto
  then show "snd (on_canvas_click hit s) = s" by (rule on_canvas_click_rejected)
next
  assume "simulation_state s = Finished"
  then show "run_next_round s = (Ignored, s)" by (simp add: run_next_round_def)
next
  assume "fst (run_next_round s) = Ignored"
  then show "snd (run_next_round s) = s" by (rule run_next_round_Ignored)
next
  assume "fst (setup_simulation f n_input sv s) \<noteq> None"
  then have "snd (setup_simulation f n_input sv s) =
      s\<lparr>max_faulty := f, nodes := [], messages := []\<rparr>"
    by (rule setup_simulation_rejected)
  then show "nodes (snd (setup_simulation f n_input sv s)) = []"
    and "messages (snd (setup_simulation f n_input sv s)) = []"
    and "max_faulty (snd (setup_simulation f n_input sv s)) = f"
    and "current_round (snd (setup_simulation f n_input sv s)) = current_round s"
    and "sender_value (snd (setup_simulation f n_input sv s)) = sender_value s"
    and "current_faulty (snd (setup_simulation f n_input sv s)) = current_faulty s"
    and "total_nodes (snd (setup_simulation f n_input sv s)) = total_nodes s"
    by simp_all
qed

theorem rejected_operations_witness:
  "on_canvas_click (\<lambda>j. j = 0) gui_init = (SenderImmune, gui_init) \<and>
   on_canvas_click (\<lambda>j. j = 2) (snd (on_canvas_click (\<lambda>j. j = 1) gui_init)) =
     (QuotaExceeded, snd (on_canvas_click (\<lambda>j. j = 1) gui_init)) \<and>
   on_canvas_click (\<lambda>j. j = 1) (rounds 2 gui_init) = (WrongPhase, rounds 2 gui_init) \<and>
   run_next_round (rounds 2 gui_init) = (Ignored, rounds 2 gui_init) \<and>
   fst (setup_simulation 1 (Some 3) Attack gui_init) = Some (NBelowMinimum 4) \<and>
   nodes (snd (setup_simulation 1 (Some 3) Attack gui_init)) = [] \<and>
   messages (snd (setup_simulation 1 (Some 3) Attack gui_init)) = [] \<and>
   current_round (snd (setup_simulation 1 (Some 3) Attack gui_init)) = current_round gui_init"
proof -
  let ?t = "snd (on_canvas_click (\<lambda>j. j = 1) gui_init)"
  have s1: "fst (on_canvas_click (\<lambda>j. j = 0) gui_init) = SenderImmune"
    by (simp add: gui_init_eq on_canvas_click_def new_node_def)
  have s2: "fst (on_canvas_click (\<lambda>j. j = 2) ?t) = QuotaExceeded"
    by (simp add: gui_init_eq on_canvas_click_def new_node_def)
  have s3: "simulation_state (rounds 2 gui_init) \<noteq> Ready"
    by (simp add: gui_init_finished)
  have s4: "fst (setup_simulation 1 (Some 3) Attack gui_init) = Some (NBelowMinimum 4)"
    by (simp add: setup_simulation_def Let_def)
  from s1 rejected_operations [of gui_init "\<lambda>j. j = 0" 1 "Some 3" Attack]
  have a: "on_canvas_click (\<lambda>j. j = 0) gui_init = (SenderImmune, gui_init)"
    by (simp add: prod_eq_iff)
  from s4 rejected_operations [of gui_init "\<lambda>j. j = 0" 1 "Some 3" Attack]
  have e: "nodes (snd (setup_simulation 1 (Some 3) Attack gui_init)) = [] \<and>
     messages (snd (setup_simulation 1 (Some 3) Attack gui_init)) = [] \<and>
     current_round (snd (setup_simulation 1 (Some 3) Attack gui_init)) = current_round gui_init"
    by simp
  from s2 rejected_operations [of ?t "\<lambda>j. j = 2" 1 "Some 3" Attack]
  have b: "on_canvas_click (\<lambda>j. j = 2) ?t = (QuotaExceeded, ?t)"
    by (simp add: prod_eq_iff)
  from s3 gui_init_finished
    rejected_operations [of "rounds 2 gui_init" "\<lambda>j. j = 1" 1 "Some 3" Attack]
  have c: "on_canvas_click (\<lambda>j. j = 1) (rounds 2 gui_init) = (WrongPhase, rounds 2 gui_init)"
    and d: "run_next_round (rounds 2 gui_init) = (Ignored, rounds 2 gui_init)"
    by blast+
  from a b c d s4 e show ?thesis by (intro conjI) simp_all
qed


subsection \<open>Validation of the configuration\<close>

text \<open>
  C8. A setup with an N below \<open>3 f + 1\<close> reports the minimum \<open>3 f + 1\<close>, one with an N
  that is no number reports that instead, and neither assigns the phase. At the input
  F = 1, N = 3 in the Ready state that \<^verbatim>\<open>__init__\<close> leaves, the report names the
  minimum 4 and the phase is still Ready, now without nodes; the next press of the round
  button is accepted, sets the phase to Running and the round counter to 1, and raises
  \<^verbatim>\<open>IndexError\<close> at \<^verbatim>\<open>self.nodes[self.sender_id]\<close>.
\<close>

theorem rejected_setup_stays_ready:
  "fst (setup_simulation f (Some (int (3 * f) - int d)) sv s) = Some (NBelowMinimum (3 * f + 1)) \<and>
   fst (setup_simulation f None sv s) = Some NotANumber \<and>
   simulation_state (snd (setup_simulation f (Some (int (3 * f) - int d)) sv s))
     = simulation_state s \<and>
   simulation_state (snd (setup_simulation f None sv s)) = simulation_state s \<and>
   setup_simulation 1 (Some 3) Attack gui_init =
     (Some (NBelowMinimum 4), gui_init\<lparr>nodes := [], messages := []\<rparr>) \<and>
   simulation_state gui_init = Ready \<and>
   simulation_state (snd (setup_simulation 1 (Some 3) Attack gui_init)) = Ready \<and>
   run_next_round (snd (setup_simulation 1 (Some 3) Attack gui_init)) =
     (Raised IndexError,
      gui_init\<lparr>nodes := [], messages := [], current_round := 1, simulation_state := Running\<rparr>)"
  by (simp add: setup_simulation_def Let_def gui_init_eq run_next_round_def round_body_def
      sender_id_def)

section \<open>The reachable states\<close>

subsection \<open>Dictionaries and delivery\<close>

lemma map_of_dict_set: "map_of (dict_set k v kvs) = (map_of kvs)(k \<mapsto> v)"
  by (induction kvs) (auto simp: fun_eq_iff)

lemma keys_dict_set:
  "map fst (dict_set k v kvs) =
     (if k \<in> set (map fst kvs) then map fst kvs else map fst kvs @ [k])"
  by (induction kvs) force+

lemma distinct_dict_set:
  "distinct (map fst kvs) \<Longrightarrow> distinct (map fst (dict_set k v kvs))"
  by (simp add: keys_dict_set)

lemma dict_has_map_of: "dict_has k kvs \<longleftrightarrow> map_of kvs k \<noteq> None"
  by (simp add: dict_has_def map_of_eq_None_iff)

lemma received_Nil [simp]: "received i [] lg = lg"
  by (simp add: received_def)

lemma received_Cons:
  "received i (m # ms) lg =
     received i ms
       (if to_node m = i then dict_set (path_str (mpath m)) (mvalue m) lg else lg)"
  by (simp add: received_def)

lemma distinct_received:
  "distinct (map fst lg) \<Longrightarrow> distinct (map fst (received i ms lg))"
  by (induction ms arbitrary: lg) (simp_all add: received_Cons distinct_dict_set)

lemma set_keys_dict_set:
  "set (map fst (dict_set k v kvs)) = insert k (set (map fst kvs))"
  by (auto simp: keys_dict_set)

lemma keys_received:
  "set (map fst (received i ms lg)) \<subseteq> set (map fst lg) \<union> path_str ` mpath ` set ms"
proof (induction ms arbitrary: lg)
  case Nil
  show ?case by simp
next
  case (Cons m ms)
  let ?lg = "if to_node m = i then dict_set (path_str (mpath m)) (mvalue m) lg else lg"
  have "set (map fst (received i (m # ms) lg)) \<subseteq>
      set (map fst ?lg) \<union> path_str ` mpath ` set ms"
    unfolding received_Cons by (rule Cons.IH)
  moreover have "set (map fst ?lg) \<subseteq> insert (path_str (mpath m)) (set (map fst lg))"
    by (auto simp only: set_keys_dict_set split: if_splits)
  ultimately show ?case by auto
qed

lemma map_of_received_other:
  "\<forall>m\<in>set ms. to_node m = i \<longrightarrow> mpath m \<noteq> p \<Longrightarrow>
   map_of (received i ms lg) (path_str p) = map_of lg (path_str p)"
  by (induction ms arbitrary: lg) (auto simp: received_Cons map_of_dict_set)

lemma map_of_received_same:
  assumes "\<exists>m\<in>set ms. to_node m = i \<and> mpath m = p"
    and "\<forall>m\<in>set ms. to_node m = i \<and> mpath m = p \<longrightarrow> mvalue m = v"
  shows "map_of (received i ms lg) (path_str p) = Some v"
  using assms
proof (induction ms arbitrary: lg)
  case Nil
  then show ?case by simp
next
  case (Cons m ms)
  show ?case
  proof (cases "\<exists>m'\<in>set ms. to_node m' = i \<and> mpath m' = p")
    case True
    with Cons.IH Cons.prems(2) show ?thesis by (simp add: received_Cons)
  next
    case False
    with Cons.prems have hd: "to_node m = i" "mpath m = p" "mvalue m = v" by auto
    from False have "\<forall>m'\<in>set ms. to_node m' = i \<longrightarrow> mpath m' \<noteq> p" by blast
    then show ?thesis
      using hd by (simp add: received_Cons map_of_received_other map_of_dict_set)
  qed
qed

lemma deliver_one_map:
  "deliver_one m nds =
     map (\<lambda>nd. nd\<lparr>message_log := received (node_id nd) [m] (message_log nd)\<rparr>) nds"
  by (simp add: deliver_one_def received_def)

lemma fold_deliver_one:
  "fold deliver_one ms nds =
     map (\<lambda>nd. nd\<lparr>message_log := received (node_id nd) ms (message_log nd)\<rparr>) nds"
proof (induction ms arbitrary: nds)
  case Nil
  show ?case by (simp add: map_idI)
next
  case (Cons m ms)
  have "fold deliver_one (m # ms) nds = fold deliver_one ms (deliver_one m nds)"
    by simp
  also have "\<dots> =
      map (\<lambda>nd. nd\<lparr>message_log := received (node_id nd) ms (message_log nd)\<rparr>)
        (deliver_one m nds)"
    by (rule Cons.IH)
  also have "\<dots> =
      map (\<lambda>nd. nd\<lparr>message_log := received (node_id nd) (m # ms) (message_log nd)\<rparr>) nds"
    by (simp add: deliver_one_map received_Cons received_def)
  finally show ?case .
qed

subsection \<open>The messages of a round, as sets\<close>

lemma in_round1_messages:
  "m \<in> set (round1_messages sv sender nds) \<longleftrightarrow>
     (\<exists>nd\<in>set nds. node_id nd \<noteq> node_id sender \<and>
        m = \<lparr>from_node = node_id sender, to_node = node_id nd,
             mvalue = get_faulty_value sender sv (node_id nd), mpath = [node_id sender]\<rparr>)"
  by (auto simp: round1_messages_def)

lemma in_relay_to:
  "m \<in> set (relay_to nds sn q v) \<longleftrightarrow>
     (\<exists>rn\<in>set nds. node_id rn \<noteq> node_id sn \<and> node_id rn \<notin> set q \<and>
        m = \<lparr>from_node = node_id sn, to_node = node_id rn,
             mvalue = get_faulty_value sn v (node_id rn), mpath = q @ [node_id sn]\<rparr>)"
  by (auto simp: relay_to_def)

lemma in_log_items:
  "(sn, k, v) \<in> set (log_items nds) \<longleftrightarrow> sn \<in> set nds \<and> (k, v) \<in> set (message_log sn)"
  by (auto simp: log_items_def)

text \<open>
  When every key is the text of a non-empty path, no key fails to parse: the loop ends
  without an exception and has appended the messages of every entry of the right length.
\<close>

lemma relay_loop_parsed:
  assumes "\<forall>(sn, k, v)\<in>set items. \<exists>q. q \<noteq> [] \<and> k = path_str q"
  shows "snd (relay_loop r nds items acc) = None \<and>
     set (fst (relay_loop r nds items acc)) =
       set acc \<union> {m. \<exists>sn q v. (sn, path_str q, v) \<in> set items \<and> q \<noteq> [] \<and>
                      length q = r - 1 \<and> m \<in> set (relay_to nds sn q v)}"
  using assms
proof (induction items arbitrary: acc)
  case Nil
  show ?case by simp
next
  case (Cons it items)
  obtain sn k v where it: "it = (sn, k, v)" by (cases it)
  with Cons.prems obtain q where q: "q \<noteq> []" "k = path_str q" by auto
  then have pk: "parse_path k = Some q" by (simp add: path_roundtrip)
  let ?acc = "if length q = r - 1 then acc @ relay_to nds sn q v else acc"
  from Cons.prems have rest: "\<forall>(sn, k, v)\<in>set items. \<exists>q. q \<noteq> [] \<and> k = path_str q"
    by simp
  have step: "relay_loop r nds (it # items) acc = relay_loop r nds items ?acc"
    by (simp add: it pk)
  have "{m. \<exists>sn' q' v'. (sn', path_str q', v') \<in> set (it # items) \<and> q' \<noteq> [] \<and>
            length q' = r - 1 \<and> m \<in> set (relay_to nds sn' q' v')} =
        (if length q = r - 1 then set (relay_to nds sn q v) else {}) \<union>
        {m. \<exists>sn' q' v'. (sn', path_str q', v') \<in> set items \<and> q' \<noteq> [] \<and>
            length q' = r - 1 \<and> m \<in> set (relay_to nds sn' q' v')}"
    using q by (auto simp: it)
  with Cons.IH [OF rest, of ?acc] show ?case
    unfolding step by auto
qed

lemma relay_messages_parsed:
  assumes "\<forall>sn\<in>set nds. \<forall>kv\<in>set (message_log sn). \<exists>q. q \<noteq> [] \<and> fst kv = path_str q"
  shows "snd (relay_messages r nds) = None"
    and "m \<in> set (fst (relay_messages r nds)) \<longleftrightarrow>
     (\<exists>sn\<in>set nds. \<exists>q v. (path_str q, v) \<in> set (message_log sn) \<and> q \<noteq> [] \<and>
        length q = r - 1 \<and>
        (\<exists>rn\<in>set nds. node_id rn \<noteq> node_id sn \<and> node_id rn \<notin> set q \<and>
           m = \<lparr>from_node = node_id sn, to_node = node_id rn,
                mvalue = get_faulty_value sn v (node_id rn), mpath = q @ [node_id sn]\<rparr>))"
proof -
  have items: "\<forall>(sn, k, v)\<in>set (log_items nds). \<exists>q. q \<noteq> [] \<and> k = path_str q"
    using assms by (fastforce simp: in_log_items)
  note rl = relay_loop_parsed [OF items, of r nds "[]"]
  from rl show "snd (relay_messages r nds) = None"
    by (simp add: relay_messages_def)
  from rl show "m \<in> set (fst (relay_messages r nds)) \<longleftrightarrow>
     (\<exists>sn\<in>set nds. \<exists>q v. (path_str q, v) \<in> set (message_log sn) \<and> q \<noteq> [] \<and>
        length q = r - 1 \<and>
        (\<exists>rn\<in>set nds. node_id rn \<noteq> node_id sn \<and> node_id rn \<notin> set q \<and>
           m = \<lparr>from_node = node_id sn, to_node = node_id rn,
                mvalue = get_faulty_value sn v (node_id rn), mpath = q @ [node_id sn]\<rparr>))"
    unfolding relay_messages_def by (simp add: in_log_items in_relay_to) blast
qed

subsection \<open>Node ids, flags and paths\<close>

lemma ids_nth:
  "map node_id nds = [0..<length nds] \<Longrightarrow> i < length nds \<Longrightarrow> node_id (nds ! i) = i"
  by (metis add_0 length_map nth_map nth_upt)

lemma ids_mem:
  assumes "map node_id nds = [0..<length nds]" "nd \<in> set nds"
  shows "node_id nd < length nds \<and> nds ! node_id nd = nd"
proof -
  from assms(2) obtain i where i: "i < length nds" "nds ! i = nd"
    by (auto simp: in_set_conv_nth)
  with ids_nth [OF assms(1) i(1)] show ?thesis by simp
qed

lemma flags_cong:
  "map is_faulty nds' = map is_faulty nds \<Longrightarrow> flags nds' = flags nds"
proof (rule ext)
  fix j
  assume eq: "map is_faulty nds' = map is_faulty nds"
  then have len: "length nds' = length nds" by (metis length_map)
  show "flags nds' j = flags nds j"
  proof (cases "j < length nds")
    case True
    with len eq have "is_faulty (nds' ! j) = is_faulty (nds ! j)"
      by (metis nth_map)
    with len True show ?thesis by (simp add: flags_def)
  next
    case False
    with len show ?thesis by (simp add: flags_def)
  qed
qed

lemma valid_path_single:
  "valid_path n l [j] \<longleftrightarrow> j = sender_id \<and> sender_id < n \<and> l \<noteq> sender_id"
  by (auto simp: valid_path_def)

lemma valid_path_snoc:
  "q \<noteq> [] \<Longrightarrow>
   valid_path n l (q @ [j]) \<longleftrightarrow> valid_path n j q \<and> j < n \<and> l \<noteq> j \<and> l \<notin> set q"
  by (auto simp: valid_path_def)

lemma valid_path_length1:
  "valid_path n l p \<Longrightarrow> length p \<le> 1 \<Longrightarrow> p = [sender_id]"
  by (cases p) (auto simp: valid_path_def)

lemma get_faulty_value_relayed:
  "j < length nds \<Longrightarrow>
   get_faulty_value (nds ! j) (relayed (flags nds) sv j rp) l =
   relayed (flags nds) sv l (j # rp)"
  by (simp add: get_faulty_value_def flags_def)

subsection \<open>The logs after a round\<close>

lemma delivered_nth:
  "l < length nds \<Longrightarrow>
   message_log (fold deliver_one ms nds ! l) =
     received (node_id (nds ! l)) ms (message_log (nds ! l))"
  by (simp add: fold_deliver_one)

lemma delivered_fields [simp]:
  "map node_id (fold deliver_one ms nds) = map node_id nds"
  "map is_faulty (fold deliver_one ms nds) = map is_faulty nds"
  "map is_sender (fold deliver_one ms nds) = map is_sender nds"
  "map final_decision (fold deliver_one ms nds) = map final_decision nds"
  by (simp_all add: fold_deliver_one)

lemma delivered_filter_faulty [simp]:
  "length (filter is_faulty (fold deliver_one ms nds)) = length (filter is_faulty nds)"
proof -
  have "length (filter is_faulty xs) = length (filter id (map is_faulty xs))" for xs :: "node list"
    by (simp add: filter_map comp_def)
  then show ?thesis by (metis delivered_fields(2))
qed

lemma delivered_distinct:
  "\<forall>nd\<in>set nds. distinct (map fst (message_log nd)) \<Longrightarrow>
   \<forall>nd\<in>set (fold deliver_one ms nds). distinct (map fst (message_log nd))"
  by (auto simp: fold_deliver_one distinct_received)

lemma logs_ok_keys:
  assumes "logs_ok nds sv r" "l < length nds" "k \<in> set (map fst (message_log (nds ! l)))"
  shows "\<exists>p. k = path_str p"
  using assms unfolding logs_ok_def by blast

lemma logs_ok_map:
  assumes "logs_ok nds sv r" "l < length nds"
  shows "map_of (message_log (nds ! l)) (path_str p) =
     (if valid_path (length nds) l p \<and> length p \<le> r
      then Some (relayed (flags nds) sv l (rev p)) else None)"
  using assms unfolding logs_ok_def by blast

lemma logs_okI:
  assumes "\<And>l k. l < length nds \<Longrightarrow> k \<in> set (map fst (message_log (nds ! l))) \<Longrightarrow>
      \<exists>p. k = path_str p"
    and "\<And>l p. l < length nds \<Longrightarrow> map_of (message_log (nds ! l)) (path_str p) =
      (if valid_path (length nds) l p \<and> length p \<le> r
       then Some (relayed (flags nds) sv l (rev p)) else None)"
  shows "logs_ok nds sv r"
  using assms unfolding logs_ok_def by blast

lemma logs_ok_round1:
  assumes ids: "map node_id nds = [0..<length nds]"
    and ne: "nds \<noteq> []"
    and old: "logs_ok nds sv 0"
  shows "logs_ok (fold deliver_one (round1_messages sv (nds ! sender_id) nds) nds) sv 1"
proof (rule logs_okI)
  let ?n = "length nds"
  let ?ms = "round1_messages sv (nds ! sender_id) nds"
  let ?nds' = "fold deliver_one ?ms nds"
  have s0: "sender_id < ?n" "node_id (nds ! sender_id) = sender_id"
    using ne ids_nth [OF ids, of sender_id] by (simp_all add: sender_id_def)
  have fl: "flags ?nds' = flags nds" by (rule flags_cong) simp
  have len: "length ?nds' = ?n" by simp
  have lg: "message_log (?nds' ! l) = received l ?ms (message_log (nds ! l))"
    if "l < ?n" for l
    using delivered_nth [OF that, of ?ms] ids_nth [OF ids that] by simp
  {
    fix l k assume l': "l < length ?nds'" and k: "k \<in> set (map fst (message_log (?nds' ! l)))"
    from l' have l: "l < ?n" by simp
    from k keys_received [of l ?ms "message_log (nds ! l)"]
    have "k \<in> set (map fst (message_log (nds ! l))) \<or> k \<in> path_str ` mpath ` set ?ms"
      unfolding lg [OF l] by blast
    then show "\<exists>p. k = path_str p"
      using logs_ok_keys [OF old l] by blast
  next
    fix l p assume l': "l < length ?nds'"
    from l' have l: "l < ?n" by simp
    have idl: "node_id (nds ! l) = l" using ids_nth [OF ids l] .
    have old_l: "map_of (message_log (nds ! l)) (path_str p) = None"
      using logs_ok_map [OF old l, of p] by (auto simp: valid_path_def)
    have "map_of (message_log (?nds' ! l)) (path_str p) =
        (if valid_path ?n l p \<and> length p \<le> 1
         then Some (relayed (flags nds) sv l (rev p)) else None)"
    proof (cases "valid_path ?n l p \<and> length p \<le> 1")
      case True
      then have p: "p = [sender_id]" by (auto dest: valid_path_length1)
      with True have ls: "l \<noteq> sender_id" by (simp add: valid_path_single)
      have mem: "nds ! l \<in> set nds" using l by simp
      have "\<lparr>from_node = sender_id, to_node = l,
              mvalue = get_faulty_value (nds ! sender_id) sv l, mpath = [sender_id]\<rparr>
            \<in> set ?ms"
        unfolding in_round1_messages using mem idl ls s0
        by (intro bexI [of _ "nds ! l"]) auto
      then have ex: "\<exists>m\<in>set ?ms. to_node m = l \<and> mpath m = p"
        by (rule rev_bexI) (simp add: p)
      have un: "\<forall>m\<in>set ?ms. to_node m = l \<and> mpath m = p \<longrightarrow>
          mvalue m = get_faulty_value (nds ! sender_id) sv l"
        by (auto simp: in_round1_messages)
      have "map_of (message_log (?nds' ! l)) (path_str p) =
          Some (get_faulty_value (nds ! sender_id) sv l)"
        unfolding lg [OF l] by (rule map_of_received_same [OF ex un])
      also have "get_faulty_value (nds ! sender_id) sv l = relayed (flags nds) sv l (rev p)"
        using get_faulty_value_relayed [OF s0(1), of sv "[]" l] p by simp
      finally show ?thesis using True by simp
    next
      case False
      have "\<forall>m\<in>set ?ms. to_node m = l \<longrightarrow> mpath m \<noteq> p"
      proof (intro ballI impI notI)
        fix m assume m: "m \<in> set ?ms" "to_node m = l" "mpath m = p"
        then obtain nd where nd: "nd \<in> set nds" "node_id nd \<noteq> node_id (nds ! sender_id)"
          "to_node m = node_id nd" "mpath m = [node_id (nds ! sender_id)]"
          unfolding in_round1_messages by auto
        with m s0 have "p = [sender_id]" "l \<noteq> sender_id" by auto
        with s0 False show False by (simp add: valid_path_single)
      qed
      then have "map_of (message_log (?nds' ! l)) (path_str p) =
          map_of (message_log (nds ! l)) (path_str p)"
        unfolding lg [OF l] by (rule map_of_received_other)
      with old_l False show ?thesis by simp
    qed
    then show "map_of (message_log (?nds' ! l)) (path_str p) =
        (if valid_path (length ?nds') l p \<and> length p \<le> 1
         then Some (relayed (flags ?nds') sv l (rev p)) else None)"
      by (simp only: fl len)
  }
qed

lemma log_entry:
  assumes ids: "map node_id nds = [0..<length nds]"
    and dk: "\<forall>nd\<in>set nds. distinct (map fst (message_log nd))"
    and old: "logs_ok nds sv r"
    and sn: "sn \<in> set nds" and e: "(path_str q, v) \<in> set (message_log sn)"
  shows "valid_path (length nds) (node_id sn) q \<and> length q \<le> r \<and>
      v = relayed (flags nds) sv (node_id sn) (rev q) \<and> node_id sn < length nds \<and>
      nds ! node_id sn = sn"
proof -
  from ids_mem [OF ids sn] have i: "node_id sn < length nds" "nds ! node_id sn = sn"
    by simp_all
  from dk sn e have "map_of (message_log sn) (path_str q) = Some v" by simp
  with logs_ok_map [OF old i(1), of q] i show ?thesis by (simp split: if_splits)
qed

lemma log_key:
  assumes ids: "map node_id nds = [0..<length nds]"
    and dk: "\<forall>nd\<in>set nds. distinct (map fst (message_log nd))"
    and old: "logs_ok nds sv r"
    and sn: "sn \<in> set nds" and e: "kv \<in> set (message_log sn)"
  shows "\<exists>q. q \<noteq> [] \<and> fst kv = path_str q"
proof -
  from ids_mem [OF ids sn] have i: "node_id sn < length nds" "nds ! node_id sn = sn"
    by simp_all
  from e have "fst kv \<in> set (map fst (message_log (nds ! node_id sn)))"
    using i by simp
  from logs_ok_keys [OF old i(1) this] obtain q where q: "fst kv = path_str q" ..
  have "kv = (path_str q, snd kv)" using q by (simp add: prod_eq_iff)
  with e have "(path_str q, snd kv) \<in> set (message_log sn)" by metis
  from log_entry [OF ids dk old sn this] have "q \<noteq> []" by (auto simp: valid_path_def)
  with q show ?thesis by blast
qed

lemma relay_parses:
  assumes ids: "map node_id nds = [0..<length nds]"
    and dk: "\<forall>nd\<in>set nds. distinct (map fst (message_log nd))"
    and old: "logs_ok nds sv r"
  shows "\<forall>sn\<in>set nds. \<forall>kv\<in>set (message_log sn). \<exists>q. q \<noteq> [] \<and> fst kv = path_str q"
  using log_key [OF ids dk old] by blast

lemma logs_ok_relay:
  assumes ids: "map node_id nds = [0..<length nds]"
    and dk: "\<forall>nd\<in>set nds. distinct (map fst (message_log nd))"
    and old: "logs_ok nds sv r"
    and r: "1 \<le> r"
  shows "logs_ok (fold deliver_one (fst (relay_messages (Suc r) nds)) nds) sv (Suc r)"
proof (rule logs_okI)
  let ?n = "length nds"
  let ?ms = "fst (relay_messages (Suc r) nds)"
  let ?nds' = "fold deliver_one ?ms nds"
  let ?F = "flags nds"
  note in_ms = relay_messages_parsed(2) [OF relay_parses [OF ids dk old], of _ "Suc r"]
  have fl: "flags ?nds' = ?F" by (rule flags_cong) simp
  have len: "length ?nds' = ?n" by simp
  have lg: "message_log (?nds' ! l) = received l ?ms (message_log (nds ! l))"
    if "l < ?n" for l
    using delivered_nth [OF that, of ?ms] ids_nth [OF ids that] by simp
  have entry: "valid_path ?n (node_id sn) q \<and> length q \<le> r \<and>
      v = relayed ?F sv (node_id sn) (rev q) \<and> node_id sn < ?n \<and> nds ! node_id sn = sn"
    if "sn \<in> set nds" "(path_str q, v) \<in> set (message_log sn)" for sn q v
    using log_entry [OF ids dk old that] .
  {
    fix l k assume l': "l < length ?nds'" and k: "k \<in> set (map fst (message_log (?nds' ! l)))"
    from l' have l: "l < ?n" by simp
    from k keys_received [of l ?ms "message_log (nds ! l)"]
    have "k \<in> set (map fst (message_log (nds ! l))) \<or> k \<in> path_str ` mpath ` set ?ms"
      unfolding lg [OF l] by blast
    then show "\<exists>p. k = path_str p"
      using logs_ok_keys [OF old l] by blast
  next
    fix l p assume l': "l < length ?nds'"
    from l' have l: "l < ?n" by simp
    have idl: "node_id (nds ! l) = l" using ids_nth [OF ids l] .
    have old_l: "map_of (message_log (nds ! l)) (path_str p) =
        (if valid_path ?n l p \<and> length p \<le> r
         then Some (relayed ?F sv l (rev p)) else None)"
      using logs_ok_map [OF old l] .
    have "map_of (message_log (?nds' ! l)) (path_str p) =
        (if valid_path ?n l p \<and> length p \<le> Suc r
         then Some (relayed ?F sv l (rev p)) else None)"
    proof (cases "valid_path ?n l p \<and> length p = Suc r")
      case True
      with r have "p \<noteq> []" "butlast p \<noteq> []"
        by (auto simp: butlast_conv_take)
      then obtain q j where p: "p = q @ [j]" and q: "q \<noteq> []"
        by (metis append_butlast_last_id)
      from True p q have v: "valid_path ?n j q" "j < ?n" "l \<noteq> j" "l \<notin> set q"
        and lq: "length q = r"
        by (simp_all add: valid_path_snoc)
      let ?v = "relayed ?F sv j (rev q)"
      have idj: "node_id (nds ! j) = j" using ids_nth [OF ids v(2)] .
      have "map_of (message_log (nds ! j)) (path_str q) = Some ?v"
        using logs_ok_map [OF old v(2), of q] v lq by simp
      then have inlog: "(path_str q, ?v) \<in> set (message_log (nds ! j))"
        by (rule map_of_SomeD)
      have "\<lparr>from_node = j, to_node = l, mvalue = get_faulty_value (nds ! j) ?v l,
             mpath = q @ [j]\<rparr> \<in> set ?ms"
        unfolding in_ms
        using inlog lq v idj idl l q
        by (intro bexI [of _ "nds ! j"] exI [of _ q] exI [of _ ?v] conjI bexI [of _ "nds ! l"])
           simp_all
      then have ex: "\<exists>m\<in>set ?ms. to_node m = l \<and> mpath m = p"
        by (rule rev_bexI) (simp add: p)
      have un: "\<forall>m\<in>set ?ms. to_node m = l \<and> mpath m = p \<longrightarrow>
          mvalue m = get_faulty_value (nds ! j) ?v l"
      proof (intro ballI impI)
        fix m assume m: "m \<in> set ?ms" "to_node m = l \<and> mpath m = p"
        then obtain sn q' v' rn where o: "sn \<in> set nds"
          "(path_str q', v') \<in> set (message_log sn)"
          "rn \<in> set nds" "to_node m = node_id rn"
          "mvalue m = get_faulty_value sn v' (node_id rn)" "mpath m = q' @ [node_id sn]"
          unfolding in_ms by auto
        with m p have eq: "q' = q" "node_id sn = j" "node_id rn = l" by auto
        from entry [OF o(1,2)] eq have "v' = ?v" "sn = nds ! j" by auto
        with o(5) eq show "mvalue m = get_faulty_value (nds ! j) ?v l" by simp
      qed
      have "map_of (message_log (?nds' ! l)) (path_str p) =
          Some (get_faulty_value (nds ! j) ?v l)"
        unfolding lg [OF l] by (rule map_of_received_same [OF ex un])
      also have "get_faulty_value (nds ! j) ?v l = relayed ?F sv l (rev p)"
        using get_faulty_value_relayed [OF v(2), of sv "rev q" l] p by simp
      finally show ?thesis using True by simp
    next
      case False
      have "\<forall>m\<in>set ?ms. to_node m = l \<longrightarrow> mpath m \<noteq> p"
      proof (intro ballI impI notI)
        fix m assume m: "m \<in> set ?ms" "to_node m = l" "mpath m = p"
        then obtain sn q' v' rn where o: "sn \<in> set nds"
          "(path_str q', v') \<in> set (message_log sn)"
          "length q' = r" "rn \<in> set nds" "node_id rn \<noteq> node_id sn" "node_id rn \<notin> set q'"
          "to_node m = node_id rn" "mpath m = q' @ [node_id sn]"
          unfolding in_ms by auto
        from entry [OF o(1,2)] have e: "valid_path ?n (node_id sn) q'" "node_id sn < ?n"
          by simp_all
        then have "q' \<noteq> []" by (simp add: valid_path_def)
        with e o m have "valid_path ?n l p \<and> length p = Suc r"
          by (simp add: valid_path_snoc)
        with False show False by simp
      qed
      then have "map_of (message_log (?nds' ! l)) (path_str p) =
          map_of (message_log (nds ! l)) (path_str p)"
        unfolding lg [OF l] by (rule map_of_received_other)
      with old_l False show ?thesis by (auto simp: le_Suc_eq)
    qed
    then show "map_of (message_log (?nds' ! l)) (path_str p) =
        (if valid_path (length ?nds') l p \<and> length p \<le> Suc r
         then Some (relayed (flags ?nds') sv l (rev p)) else None)"
      by (simp only: fl len)
  }
qed

lemma logs_ok_0:
  "logs_ok nds sv 0 \<longleftrightarrow> (\<forall>l<length nds. message_log (nds ! l) = [])"
proof
  assume ok: "logs_ok nds sv 0"
  show "\<forall>l<length nds. message_log (nds ! l) = []"
  proof (intro allI impI)
    fix l assume l: "l < length nds"
    have "message_log (nds ! l) \<noteq> kv # kvs" for kv kvs
    proof
      assume c: "message_log (nds ! l) = kv # kvs"
      then have k: "fst kv \<in> set (map fst (message_log (nds ! l)))" by simp
      from logs_ok_keys [OF ok l k] obtain p where p: "fst kv = path_str p" ..
      have "\<not> (valid_path (length nds) l p \<and> length p \<le> 0)"
        by (auto simp: valid_path_def)
      with logs_ok_map [OF ok l, of p]
      have "map_of (message_log (nds ! l)) (fst kv) = None"
        by (simp add: p)
      with c show False by (cases kv) simp
    qed
    then show "message_log (nds ! l) = []" by (cases "message_log (nds ! l)") blast+
  qed
next
  assume e: "\<forall>l<length nds. message_log (nds ! l) = []"
  have "\<not> (valid_path n l p \<and> length p \<le> 0)" for n l p
    by (auto simp: valid_path_def)
  with e show "logs_ok nds sv 0" by (intro logs_okI) simp_all
qed

lemma logs_ok_cong:
  assumes "map message_log nds' = map message_log nds"
    and "map is_faulty nds' = map is_faulty nds"
  shows "logs_ok nds' sv r = logs_ok nds sv r"
proof -
  from assms(1) have len: "length nds' = length nds" by (metis length_map)
  from assms(1) len have "message_log (nds' ! l) = message_log (nds ! l)"
    if "l < length nds" for l
    using that by (metis nth_map)
  with len flags_cong [OF assms(2)] show ?thesis by (simp add: logs_ok_def)
qed

lemma round1_messages_ok:
  assumes ids: "map node_id nds = [0..<length nds]" and ne: "nds \<noteq> []"
    and m: "m \<in> set (round1_messages sv (nds ! sender_id) nds)"
  shows "length (mpath m) = 1 \<and> distinct (mpath m) \<and> to_node m \<notin> set (mpath m) \<and>
     hd (mpath m) = sender_id \<and> to_node m \<noteq> sender_id"
proof -
  have "node_id (nds ! sender_id) = sender_id"
    using ne ids_nth [OF ids, of sender_id] by (simp add: sender_id_def)
  with m show ?thesis by (auto simp: in_round1_messages)
qed

lemma relay_messages_ok:
  assumes ids: "map node_id nds = [0..<length nds]"
    and dk: "\<forall>nd\<in>set nds. distinct (map fst (message_log nd))"
    and old: "logs_ok nds sv r"
    and m: "m \<in> set (fst (relay_messages (Suc r) nds))"
  shows "length (mpath m) = Suc r \<and> distinct (mpath m) \<and> to_node m \<notin> set (mpath m) \<and>
     hd (mpath m) = sender_id \<and> to_node m \<noteq> sender_id"
proof -
  from m obtain sn q v rn where o: "sn \<in> set nds" "(path_str q, v) \<in> set (message_log sn)"
    "length q = r" "rn \<in> set nds" "node_id rn \<noteq> node_id sn" "node_id rn \<notin> set q"
    "to_node m = node_id rn" "mpath m = q @ [node_id sn]"
    unfolding relay_messages_parsed(2) [OF relay_parses [OF ids dk old]] by auto
  from log_entry [OF ids dk old o(1,2)] have v: "valid_path (length nds) (node_id sn) q"
    by simp
  then have q: "q \<noteq> []" "hd q = sender_id" "distinct q" "node_id sn \<notin> set q"
    by (simp_all add: valid_path_def)
  from q(1,2) have "sender_id \<in> set q" by (metis hd_in_set)
  with o q show ?thesis by auto
qed

subsection \<open>The invariant is kept by every operation\<close>

lemma setup_nodes_map:
  assumes "0 < n"
  shows "(map new_node [0..<n])[sender_id := (map new_node [0..<n] ! sender_id)\<lparr>is_sender := True\<rparr>]
     = map (\<lambda>i. (new_node i)\<lparr>is_sender := (i = sender_id)\<rparr>) [0..<n]"
  using assms
  by (intro nth_equalityI) (auto simp: sender_id_def nth_list_update new_node_def)

lemma setup_simulation_failure:
  "fst (setup_simulation f n_input sv s) \<noteq> None \<Longrightarrow>
   nodes (snd (setup_simulation f n_input sv s)) = [] \<and>
   messages (snd (setup_simulation f n_input sv s)) = []"
  by (auto simp: setup_simulation_def Let_def split: option.splits if_splits)

lemma setup_simulation_success:
  assumes "fst (setup_simulation f n_input sv s) = None"
  shows "\<exists>n. n_input = Some (int n) \<and> 3 * f + 1 \<le> n \<and>
     snd (setup_simulation f n_input sv s) =
       s\<lparr>max_faulty := f, total_nodes := n, sender_value := sv,
         nodes := map (\<lambda>i. (new_node i)\<lparr>is_sender := (i = sender_id)\<rparr>) [0..<n],
         messages := [], current_round := 0, current_faulty := 0,
         simulation_state := Ready\<rparr>"
proof -
  from assms obtain k where k: "n_input = Some k" "\<not> k < int (3 * f + 1)"
    by (auto simp: setup_simulation_def Let_def split: option.splits if_splits)
  then have n: "k = int (nat k)" "3 * f + 1 \<le> nat k" "0 < nat k" by auto
  show ?thesis
    using k n(2) setup_nodes_map [OF n(3)]
    by (intro exI [of _ "nat k"]) (simp add: setup_simulation_def Let_def)
qed

lemma sim_inv_setup: "sim_inv (snd (setup_simulation f n_input sv s))"
proof (cases "fst (setup_simulation f n_input sv s)")
  case (Some e)
  then show ?thesis
    using setup_simulation_failure [of f n_input sv s] by (simp add: sim_inv_def)
next
  case None
  from setup_simulation_success [OF None] obtain n where n: "3 * f + 1 \<le> n"
    and eq: "snd (setup_simulation f n_input sv s) =
       s\<lparr>max_faulty := f, total_nodes := n, sender_value := sv,
         nodes := map (\<lambda>i. (new_node i)\<lparr>is_sender := (i = sender_id)\<rparr>) [0..<n],
         messages := [], current_round := 0, current_faulty := 0,
         simulation_state := Ready\<rparr>"
    by blast
  let ?nds = "map (\<lambda>i. (new_node i)\<lparr>is_sender := (i = sender_id)\<rparr>) [0..<n]"
  have nf: "filter is_faulty ?nds = []"
    by (simp add: filter_empty_conv new_node_def)
  have c: "config_ok (snd (setup_simulation f n_input sv s))"
    unfolding eq config_ok_def using n
    by (simp add: nf comp_def new_node_def sender_id_def map_upt_eqI)
  have p: "phase_ok (snd (setup_simulation f n_input sv s))"
    unfolding eq phase_ok_def by (simp add: new_node_def)
  have m: "messages_ok (snd (setup_simulation f n_input sv s))"
    unfolding eq messages_ok_def by simp
  have l: "logs_ok ?nds sv 0"
    by (simp add: logs_ok_0 new_node_def)
  from n have "?nds \<noteq> []" by auto
  with c p m l show ?thesis unfolding sim_inv_def by (simp add: eq)
qed

lemma sim_inv_f_changed: "sim_inv (snd (on_f_changed f sv s))"
  unfolding on_f_changed_def by (rule sim_inv_setup)

lemma sim_inv_gui_init: "sim_inv gui_init"
  unfolding gui_init_def by (rule sim_inv_f_changed)

lemma click_nodes_fields:
  "map node_id (fst (snd (click_nodes hit mf cf nds))) = map node_id nds \<and>
   map is_sender (fst (snd (click_nodes hit mf cf nds))) = map is_sender nds \<and>
   map message_log (fst (snd (click_nodes hit mf cf nds))) = map message_log nds \<and>
   map final_decision (fst (snd (click_nodes hit mf cf nds))) = map final_decision nds"
  by (induction nds) (auto split: prod.splits)

lemma click_nodes_sender:
  "i < length nds \<Longrightarrow> is_sender (nds ! i) \<Longrightarrow>
   fst (snd (click_nodes hit mf cf nds)) ! i = nds ! i"
proof (induction nds arbitrary: i)
  case Nil
  then show ?case by simp
next
  case (Cons nd nds)
  then show ?case by (cases i) (auto split: prod.splits)
qed

lemma click_nodes_count:
  "snd (snd (click_nodes hit mf cf nds)) - cf =
     int (length (filter is_faulty (fst (snd (click_nodes hit mf cf nds))))) -
     int (length (filter is_faulty nds))"
  by (induction nds) (auto split: prod.splits)

lemma click_nodes_quota:
  "cf \<le> int mf \<Longrightarrow> snd (snd (click_nodes hit mf cf nds)) \<le> int mf"
  by (induction nds) (auto split: prod.splits)

lemma set_by_map:
  "map g xs = map g ys \<Longrightarrow> (\<forall>x\<in>set xs. P (g x)) \<longleftrightarrow> (\<forall>y\<in>set ys. P (g y))"
proof -
  assume "map g xs = map g ys"
  then have "g ` set xs = g ` set ys" by (metis set_map)
  then show ?thesis by (metis (no_types, lifting) image_iff)
qed

lemma config_ok_sender:
  assumes "config_ok s" "nodes s \<noteq> []"
  shows "sender_id < length (nodes s)" and "is_sender (nodes s ! sender_id)"
    and "node_id (nodes s ! sender_id) = sender_id"
proof -
  show lt: "sender_id < length (nodes s)" using assms(2) by (simp add: sender_id_def)
  from assms(1) have ms: "map is_sender (nodes s) =
      map (\<lambda>i. i = sender_id) [0..<length (nodes s)]"
    and ids: "map node_id (nodes s) = [0..<length (nodes s)]"
    by (simp_all add: config_ok_def)
  have "is_sender (nodes s ! sender_id) = map is_sender (nodes s) ! sender_id"
    using lt by simp
  also have "\<dots>" unfolding ms using lt by simp
  finally show "is_sender (nodes s ! sender_id)" .
  show "node_id (nodes s ! sender_id) = sender_id" using ids_nth [OF ids lt] .
qed

lemma sim_inv_click:
  assumes "sim_inv s"
  shows "sim_inv (snd (on_canvas_click hit s))"
proof (cases "simulation_state s = Ready \<and> nodes s \<noteq> []")
  case False
  then show ?thesis using assms
    by (cases "simulation_state s = Ready")
       (auto simp: on_canvas_click_def sim_inv_def split: prod.splits)
next
  case True
  let ?r = "click_nodes hit (max_faulty s) (current_faulty s) (nodes s)"
  let ?nds = "fst (snd ?r)" and ?cf = "snd (snd ?r)"
  have eq: "snd (on_canvas_click hit s) = s\<lparr>nodes := ?nds, current_faulty := ?cf\<rparr>"
    using True by (simp add: on_canvas_click_def split: prod.splits)
  from assms True have c: "config_ok s" and p: "phase_ok s" and m: "messages_ok s"
    and l: "logs_ok (nodes s) (sender_value s) (current_round s)"
    by (simp_all add: sim_inv_def)
  from p True have r0: "current_round s = 0" "messages s = []"
    "total_nodes s = length (nodes s)" "\<forall>nd\<in>set (nodes s). final_decision nd = None"
    by (simp_all add: phase_ok_def)
  note f = click_nodes_fields [of hit "max_faulty s" "current_faulty s" "nodes s"]
  from f have len: "length ?nds = length (nodes s)" by (metis length_map)
  with True have ne: "?nds \<noteq> []" by auto
  from True c have s0: "is_sender (nodes s ! sender_id)" "sender_id < length (nodes s)"
    by (simp_all add: config_ok_sender)
  have nf: "\<not> is_faulty (?nds ! sender_id)"
    using click_nodes_sender [OF s0(2,1)] c by (simp add: config_ok_def)
  have cnt: "?cf = int (length (filter is_faulty ?nds))"
    using click_nodes_count [of hit "max_faulty s" "current_faulty s" "nodes s"] c
    by (simp add: config_ok_def)
  have quota: "?cf \<le> int (max_faulty s)"
    using click_nodes_quota [of "current_faulty s" "max_faulty s" hit "nodes s"] c
    by (simp add: config_ok_def)
  have dk: "\<forall>nd\<in>set ?nds. distinct (map fst (message_log nd))"
    using set_by_map [of message_log ?nds "nodes s" "\<lambda>lg. distinct (map fst lg)"] f c
    by (simp add: config_ok_def)
  have fd: "\<forall>nd\<in>set ?nds. final_decision nd = None"
    using set_by_map [of final_decision ?nds "nodes s" "\<lambda>d. d = None"] f r0 by simp
  have c': "config_ok (snd (on_canvas_click hit s))"
    unfolding eq config_ok_def using c f len nf cnt quota dk
    by (simp add: config_ok_def)
  have p': "phase_ok (snd (on_canvas_click hit s))"
    unfolding eq phase_ok_def using True r0 len fd by simp
  have m': "messages_ok (snd (on_canvas_click hit s))"
    unfolding eq messages_ok_def using r0 by simp
  have "\<forall>i<length (nodes s). message_log (?nds ! i) = message_log (nodes s ! i)"
    using f len by (metis nth_map)
  with l r0 len have l': "logs_ok ?nds (sender_value s) 0"
    by (simp add: logs_ok_0)
  from ne c' p' m' l' r0 show ?thesis
    unfolding sim_inv_def by (simp add: eq)
qed

lemma length_filter_faulty_cong:
  fixes nds nds' :: "node list"
  assumes "map is_faulty nds' = map is_faulty nds"
  shows "length (filter is_faulty nds') = length (filter is_faulty nds)"
proof -
  have a: "length (filter is_faulty xs) = length (filter id (map is_faulty xs))"
    for xs :: "node list"
    by (simp add: filter_map comp_def)
  show ?thesis unfolding a [of nds'] a [of nds] assms ..
qed

lemma config_ok_nodes:
  assumes c: "config_ok s" and ne: "nodes s \<noteq> []"
    and ids: "map node_id nds' = map node_id (nodes s)"
    and snd: "map is_sender nds' = map is_sender (nodes s)"
    and fl: "map is_faulty nds' = map is_faulty (nodes s)"
    and dk: "\<forall>nd\<in>set nds'. distinct (map fst (message_log nd))"
    and t: "nodes t = nds'" "max_faulty t = max_faulty s" "current_faulty t = current_faulty s"
  shows "config_ok t"
proof -
  from ids have len: "length nds' = length (nodes s)" by (metis length_map)
  from ne have lt: "sender_id < length (nodes s)" by (simp add: sender_id_def)
  from fl len lt have "is_faulty (nds' ! sender_id) = is_faulty (nodes s ! sender_id)"
    by (metis nth_map)
  with c ids snd len length_filter_faulty_cong [OF fl] dk t show ?thesis
    by (simp add: config_ok_def)
qed

lemma decide_all_fields [simp]:
  "map is_sender (decide_all F nds) = map is_sender nds"
  "map is_faulty (decide_all F nds) = map is_faulty nds"
  "map message_log (decide_all F nds) = map message_log nds"
  by (simp_all add: decide_all_def run_decision_def)

lemma sim_inv_finish_round:
  assumes ne: "nodes t \<noteq> []" and c: "config_ok t" and m: "messages_ok t"
    and l: "logs_ok (nodes t) (sender_value t) (current_round t)"
    and st: "simulation_state t = Running"
    and r: "1 \<le> current_round t" "current_round t \<le> max_faulty t + 1"
  shows "sim_inv (finish_round t)"
proof (cases "max_faulty t < current_round t")
  case False
  then have "finish_round t = t" by (simp add: finish_round_def)
  moreover from False st r have "phase_ok t" by (simp add: phase_ok_def)
  ultimately show ?thesis using ne c m l by (simp add: sim_inv_def)
next
  case True
  let ?nds = "decide_all (max_faulty t) (nodes t)"
  let ?u = "finish_round t"
  have eq: "?u = t\<lparr>simulation_state := Finished, nodes := ?nds\<rparr>"
    using True by (simp add: finish_round_def)
  have ne': "nodes ?u \<noteq> []" using ne by (simp add: eq decide_all_def)
  have dk: "\<forall>nd\<in>set ?nds. distinct (map fst (message_log nd))"
    using set_by_map [of message_log ?nds "nodes t" "\<lambda>lg. distinct (map fst lg)"] c
    by (simp add: config_ok_def)
  have c': "config_ok ?u"
    by (rule config_ok_nodes [OF c ne _ _ _ dk]) (simp_all add: eq)
  have p': "phase_ok ?u"
    using True r decide_all_decision [of _ "max_faulty t" "nodes t"]
    by (simp add: eq phase_ok_def)
  have m': "messages_ok ?u" using m by (simp add: eq messages_ok_def)
  have "logs_ok ?nds (sender_value t) (current_round t) =
      logs_ok (nodes t) (sender_value t) (current_round t)"
    by (rule logs_ok_cong) simp_all
  with l have l': "logs_ok (nodes ?u) (sender_value ?u) (current_round ?u)"
    by (simp add: eq)
  from ne' c' p' m' l' show ?thesis by (simp add: sim_inv_def)
qed

lemma round_body_no_nodes:
  "nodes s = [] \<Longrightarrow>
   nodes (snd (round_body s)) = [] \<and> messages (snd (round_body s)) = []"
  by (simp add: round_body_def Let_def sender_id_def relay_messages_def log_items_def
      finish_round_def deliver_messages_def decide_all_def)

text \<open>
  A round on a consistent configuration: no exception, the round counter goes up by one,
  and the messages \<open>ms\<close> of the round are delivered before the round is finished.
\<close>

lemma round_body_step:
  assumes c: "config_ok s"
    and l: "logs_ok (nodes s) (sender_value s) (current_round s)"
    and ne: "nodes s \<noteq> []"
    and rd: "current_round s = 0 \<or> (1 \<le> current_round s \<and> current_round s \<le> max_faulty s)"
  shows "\<exists>ms. round_body s =
       (Completed,
        finish_round (s\<lparr>current_round := Suc (current_round s), messages := ms,
                       nodes := fold deliver_one ms (nodes s)\<rparr>)) \<and>
     logs_ok (fold deliver_one ms (nodes s)) (sender_value s) (Suc (current_round s)) \<and>
     (\<forall>m\<in>set ms. length (mpath m) = Suc (current_round s) \<and> distinct (mpath m) \<and>
        to_node m \<notin> set (mpath m) \<and> hd (mpath m) = sender_id \<and> to_node m \<noteq> sender_id)"
proof -
  from c have ids: "map node_id (nodes s) = [0..<length (nodes s)]"
    and dk: "\<forall>nd\<in>set (nodes s). distinct (map fst (message_log nd))"
    by (simp_all add: config_ok_def)
  from rd show ?thesis
  proof
    assume r0: "current_round s = 0"
    let ?ms = "round1_messages (sender_value s) (nodes s ! sender_id) (nodes s)"
    have "round_body s =
       (Completed,
        finish_round (s\<lparr>current_round := Suc (current_round s), messages := ?ms,
                       nodes := fold deliver_one ?ms (nodes s)\<rparr>))"
      using ne r0 by (simp add: round_body_def Let_def sender_id_def deliver_messages_def)
    moreover have "logs_ok (fold deliver_one ?ms (nodes s)) (sender_value s)
        (Suc (current_round s))"
      using logs_ok_round1 [OF ids ne] l r0 by simp
    moreover have "\<forall>m\<in>set ?ms. length (mpath m) = Suc (current_round s) \<and>
        distinct (mpath m) \<and> to_node m \<notin> set (mpath m) \<and> hd (mpath m) = sender_id \<and>
        to_node m \<noteq> sender_id"
      using round1_messages_ok [OF ids ne] r0 by simp
    ultimately show ?thesis by blast
  next
    assume r: "1 \<le> current_round s \<and> current_round s \<le> max_faulty s"
    let ?r = "current_round s"
    have "snd (relay_messages (Suc ?r) (nodes s)) = None"
      by (rule relay_messages_parsed(1) [OF relay_parses [OF ids dk l]])
    then obtain ms where rm: "relay_messages (Suc ?r) (nodes s) = (ms, None)"
      by (cases "relay_messages (Suc ?r) (nodes s)") simp
    then have ms: "fst (relay_messages (Suc ?r) (nodes s)) = ms" by simp
    have "round_body s =
       (Completed,
        finish_round (s\<lparr>current_round := Suc ?r, messages := ms,
                       nodes := fold deliver_one ms (nodes s)\<rparr>))"
      using r by (simp add: round_body_def Let_def deliver_messages_def rm)
    moreover have "logs_ok (fold deliver_one ms (nodes s)) (sender_value s) (Suc ?r)"
      using logs_ok_relay [OF ids dk l] r unfolding ms by simp
    moreover have "\<forall>m\<in>set ms. length (mpath m) = Suc ?r \<and>
        distinct (mpath m) \<and> to_node m \<notin> set (mpath m) \<and> hd (mpath m) = sender_id \<and>
        to_node m \<noteq> sender_id"
      using relay_messages_ok [OF ids dk l] unfolding ms by blast
    ultimately show ?thesis by blast
  qed
qed

lemma sim_inv_round_body:
  assumes c: "config_ok s"
    and l: "logs_ok (nodes s) (sender_value s) (current_round s)"
    and ne: "nodes s \<noteq> []"
    and act: "simulation_state s = Running"
    and rd: "current_round s = 0 \<or> (1 \<le> current_round s \<and> current_round s \<le> max_faulty s)"
  shows "sim_inv (snd (round_body s))"
proof -
  from c have dk: "\<forall>nd\<in>set (nodes s). distinct (map fst (message_log nd))"
    by (simp add: config_ok_def)
  from round_body_step [OF c l ne rd] obtain ms where
    eq: "round_body s = (Completed,
        finish_round (s\<lparr>current_round := Suc (current_round s), messages := ms,
                       nodes := fold deliver_one ms (nodes s)\<rparr>))"
    and lo: "logs_ok (fold deliver_one ms (nodes s)) (sender_value s) (Suc (current_round s))"
    and mo: "\<forall>m\<in>set ms. length (mpath m) = Suc (current_round s) \<and> distinct (mpath m) \<and>
        to_node m \<notin> set (mpath m) \<and> hd (mpath m) = sender_id \<and> to_node m \<noteq> sender_id"
    by blast
  let ?t = "s\<lparr>current_round := Suc (current_round s), messages := ms,
               nodes := fold deliver_one ms (nodes s)\<rparr>"
  have ne': "nodes ?t \<noteq> []" using ne by (simp add: fold_deliver_one)
  have c': "config_ok ?t"
    by (rule config_ok_nodes [OF c ne _ _ _ delivered_distinct [OF dk]]) simp_all
  have m': "messages_ok ?t" using mo by (simp add: messages_ok_def)
  have l': "logs_ok (nodes ?t) (sender_value ?t) (current_round ?t)" using lo by simp
  have "sim_inv (finish_round ?t)"
    by (rule sim_inv_finish_round [OF ne' c' m' l']) (use rd in \<open>auto simp: act\<close>)
  then show ?thesis by (simp add: eq)
qed

lemma sim_inv_round:
  assumes inv: "sim_inv s"
  shows "sim_inv (snd (run_next_round s))"
proof (cases "simulation_state s = Ready \<or> simulation_state s = Running")
  case False
  then have "run_next_round s = (Ignored, s)" by (auto simp: run_next_round_def)
  with inv show ?thesis by simp
next
  case active: True
  show ?thesis
  proof (cases "nodes s = []")
    case True
    then have "nodes (snd (run_next_round s)) = [] \<and> messages (snd (run_next_round s)) = []"
      using active round_body_no_nodes [of s]
        round_body_no_nodes [of "s\<lparr>simulation_state := Running\<rparr>"]
      by (auto simp: run_next_round_def)
    then show ?thesis by (simp add: sim_inv_def)
  next
    case ne: False
    from inv ne have c: "config_ok s" and p: "phase_ok s" and m: "messages_ok s"
      and l: "logs_ok (nodes s) (sender_value s) (current_round s)"
      by (simp_all add: sim_inv_def)
    from active show ?thesis
    proof
      assume rdy: "simulation_state s = Ready"
      let ?s = "s\<lparr>simulation_state := Running\<rparr>"
      from p rdy have r0: "current_round s = 0" "messages s = []"
        by (simp_all add: phase_ok_def)
      have eq: "run_next_round s = round_body ?s"
        using rdy by (simp add: run_next_round_def)
      have c': "config_ok ?s" using c by (simp add: config_ok_def)
      show ?thesis unfolding eq
        by (rule sim_inv_round_body [OF c']) (use l ne r0 in simp_all)
    next
      assume run: "simulation_state s = Running"
      from p run have r: "1 \<le> current_round s \<and> current_round s \<le> max_faulty s"
        by (simp add: phase_ok_def)
      have eq: "run_next_round s = round_body s"
        using run by (simp add: run_next_round_def)
      show ?thesis unfolding eq
        by (rule sim_inv_round_body [OF c l ne run]) (rule disjI2, rule r)
    qed
  qed
qed

lemma reachable_inv: "reachable s \<Longrightarrow> sim_inv s"
proof (induction rule: reachable.induct)
  case r_init
  show ?case by (rule sim_inv_gui_init)
next
  case (r_setup s f n_input sv)
  show ?case by (rule sim_inv_setup)
next
  case (r_f_changed s f sv)
  show ?case by (rule sim_inv_f_changed)
next
  case (r_click s hit)
  from r_click.IH show ?case by (rule sim_inv_click)
next
  case (r_round s)
  from r_round.IH show ?case by (rule sim_inv_round)
qed

section \<open>The number of rounds\<close>

lemma reachable_rounds: "reachable s \<Longrightarrow> reachable (rounds k s)"
  by (induction k arbitrary: s) (simp_all add: r_round)







section \<open>Properties of the protocol\<close>

subsection \<open>Majority among mostly equal values\<close>

lemma length_filter_mono:
  "\<forall>x\<in>set xs. P x \<longrightarrow> Q x \<Longrightarrow> length (filter P xs) \<le> length (filter Q xs)"
  by (induction xs) auto

lemma count_list_filter: "count_list xs y = length (filter (\<lambda>x. x = y) xs)"
  by (induction xs) auto

lemma length_filter_split:
  "length (filter (\<lambda>x. x = y) xs) + length (filter (\<lambda>x. x \<noteq> y) xs) = length xs"
  by (induction xs) auto

lemma majority_of_mostly:
  assumes "2 * length (filter (\<lambda>x. x \<noteq> Some v) xs) < length xs"
  shows "get_majority xs = v"
proof (cases v)
  case Attack
  with assms length_filter_split [of "Some Attack" xs]
  have "length xs < 2 * count_list xs (Some Attack)"
    by (simp add: count_list_filter)
  with Attack show ?thesis by (simp add: get_majority_iff)
next
  case Retreat
  have "length (filter (\<lambda>x. x = Some Attack) xs) \<le> length (filter (\<lambda>x. x \<noteq> Some Retreat) xs)"
    by (rule length_filter_mono) simp
  with assms Retreat have "\<not> length xs < 2 * count_list xs (Some Attack)"
    by (simp add: count_list_filter)
  then have "get_majority xs \<noteq> Attack" by (simp add: get_majority_iff)
  with Retreat show ?thesis by (cases "get_majority xs") simp_all
qed

lemma relayed_honest: "\<forall>j\<in>set rp. \<not> F j \<Longrightarrow> relayed F sv l rp = sv"
  by (induction rp arbitrary: l) simp_all

lemma length_filter_ids:
  assumes ids: "map node_id nds = [0..<length nds]"
    and p: "distinct p" "\<forall>x\<in>set p. x < length nds" "i \<notin> set p" "i < length nds"
  shows "length (filter (\<lambda>nd. node_id nd \<noteq> i \<and> node_id nd \<notin> set p) nds) =
     length nds - length p - 1"
proof -
  let ?n = "length nds"
  let ?Q = "\<lambda>j. j \<noteq> i \<and> j \<notin> set p"
  have "length (filter (\<lambda>nd. ?Q (node_id nd)) nds) = length (filter ?Q (map node_id nds))"
    by (simp add: filter_map comp_def)
  also have "\<dots> = length (filter ?Q [0..<?n])" by (simp only: ids)
  also have "\<dots> = card ({j. ?Q j} \<inter> set [0..<?n])"
    by (rule distinct_length_filter) simp
  also have "{j. ?Q j} \<inter> set [0..<?n] = {0..<?n} - insert i (set p)" by auto
  also have "card ({0..<?n} - insert i (set p)) = card {0..<?n} - card (insert i (set p))"
    using p by (intro card_Diff_subset) auto
  also have "card (insert i (set p)) = Suc (length p)"
    using p by (simp add: distinct_card)
  finally show ?thesis by simp
qed

lemma path_length_bound:
  assumes "distinct p" "\<forall>x\<in>set p. x < n" "i \<notin> set p" "i < (n::nat)"
  shows "Suc (length p) \<le> n"
proof -
  have "card (insert i (set p)) \<le> card {0..<n}"
    using assms by (intro card_mono) auto
  with assms show ?thesis by (simp add: distinct_card)
qed

subsection \<open>Validity of the recursive decision\<close>

lemma resolve_validity:
  assumes ids: "map node_id nds = [0..<length nds]"
    and n: "3 * f + 1 \<le> length nds"
    and bad: "length (filter is_faulty nds) \<le> f"
    and logs: "logs_ok nds sv (f + 1)"
    and i: "i < length nds"
  shows "valid_path (length nds) i p \<Longrightarrow> length p + m = f + 1 \<Longrightarrow>
     \<forall>j\<in>set p. \<not> flags nds j \<Longrightarrow>
     resolve_decision nds (nds ! i) p m = Some sv"
proof (induction m arbitrary: p)
  case 0
  then have "map_of (message_log (nds ! i)) (path_str p) =
      Some (relayed (flags nds) sv i (rev p))"
    using logs_ok_map [OF logs i, of p] by simp
  with 0 show ?case by (simp add: relayed_honest)
next
  case (Suc m)
  let ?n = "length nds"
  let ?self = "nds ! i"
  have idi: "node_id ?self = i" using ids_nth [OF ids i] .
  from Suc.prems have vp: "valid_path ?n i p" and lp: "length p \<le> f"
    and hp: "\<forall>j\<in>set p. \<not> flags nds j"
    by simp_all
  from vp have pne: "p \<noteq> []" and dp: "distinct p" and bp: "\<forall>x\<in>set p. x < ?n"
    and ip: "i \<notin> set p"
    by (simp_all add: valid_path_def)
  have head: "map_of (message_log ?self) (path_str p) = Some sv"
    using logs_ok_map [OF logs i, of p] vp lp hp by (simp add: relayed_honest)
  let ?P = "\<lambda>nd. node_id nd \<noteq> node_id ?self \<and> node_id nd \<notin> set p \<and>
      dict_has (path_str (p @ [node_id nd])) (message_log ?self)"
  let ?Q = "\<lambda>nd. node_id nd \<noteq> i \<and> node_id nd \<notin> set p"
  let ?g = "\<lambda>nd. resolve_decision nds ?self (p @ [node_id nd]) m"
  have has: "dict_has (path_str (p @ [node_id nd])) (message_log ?self) \<longleftrightarrow> ?Q nd"
    if "nd \<in> set nds" for nd
  proof -
    from ids_mem [OF ids that] have j: "node_id nd < ?n" by simp
    have "valid_path ?n i (p @ [node_id nd]) \<longleftrightarrow> ?Q nd"
      using vp pne j by (auto simp: valid_path_snoc valid_path_def)
    then show ?thesis
      using logs_ok_map [OF logs i, of "p @ [node_id nd]"] lp
      by (simp add: dict_has_map_of)
  qed
  have PQ: "filter ?P nds = filter ?Q nds"
    by (rule filter_cong) (auto simp: idi has)
  let ?E = "filter ?Q nds"
  have lenE: "length ?E = ?n - length p - 1"
    by (rule length_filter_ids [OF ids dp bp ip i])
  have good: "?g nd = Some sv" if "nd \<in> set ?E" "\<not> is_faulty nd" for nd
  proof -
    from that have mem: "nd \<in> set nds" and q: "?Q nd" by simp_all
    from ids_mem [OF ids mem] have j: "node_id nd < ?n" "nds ! node_id nd = nd"
      by simp_all
    have v': "valid_path ?n i (p @ [node_id nd])"
      using vp pne j q by (auto simp: valid_path_snoc valid_path_def)
    have h': "\<forall>j\<in>set (p @ [node_id nd]). \<not> flags nds j"
      using hp that(2) j by (simp add: flags_def)
    show ?thesis
      by (rule Suc.IH [OF v' _ h']) (use Suc.prems(2) in simp)
  qed
  let ?xs = "map_of (message_log ?self) (path_str p) # map ?g ?E"
  have "length (filter (\<lambda>x. x \<noteq> Some sv) ?xs) = length (filter (\<lambda>nd. ?g nd \<noteq> Some sv) ?E)"
    by (simp add: head filter_map comp_def)
  also have "\<dots> \<le> length (filter is_faulty ?E)"
    by (rule length_filter_mono) (use good in blast)
  also have "\<dots> \<le> length (filter is_faulty nds)"
    by (simp add: length_filter_mono)
  finally have nbad: "length (filter (\<lambda>x. x \<noteq> Some sv) ?xs) \<le> f"
    using bad by simp
  have "length ?xs = ?n - length p"
    using lenE path_length_bound [OF dp bp ip i] by simp
  with n lp have "2 * f < length ?xs" by simp
  with nbad have "get_majority ?xs = sv"
    by (intro majority_of_mostly) simp
  then show ?case by (simp add: PQ)
qed

subsection \<open>Decisions in a finished simulation\<close>

lemma finished_parts:
  assumes "reachable s" "simulation_state s = Finished" "nodes s \<noteq> []"
  shows "config_ok s"
    and "logs_ok (nodes s) (sender_value s) (max_faulty s + 1)"
    and "\<forall>nd\<in>set (nodes s). \<not> is_faulty nd \<longrightarrow>
           final_decision nd = resolve_decision (nodes s) nd [sender_id] (max_faulty s)"
  using reachable_inv [OF assms(1)] assms(2,3)
  by (auto simp: sim_inv_def phase_ok_def)

lemma lieutenant_decision:
  assumes r: "reachable s" and fin: "simulation_state s = Finished"
    and nd: "nd \<in> set (nodes s)" "\<not> is_faulty nd" "node_id nd \<noteq> sender_id"
  shows "final_decision nd = Some (sender_value s)"
proof -
  let ?nds = "nodes s" and ?f = "max_faulty s"
  from nd(1) have ne: "?nds \<noteq> []" by auto
  note fp = finished_parts [OF r fin ne]
  from fp(1) have ids: "map node_id ?nds = [0..<length ?nds]"
    and n: "3 * ?f + 1 \<le> length ?nds"
    and bad: "length (filter is_faulty ?nds) \<le> ?f"
    and s0: "\<not> is_faulty (?nds ! sender_id)"
    by (simp_all add: config_ok_def)
  from ids_mem [OF ids nd(1)] have i: "node_id nd < length ?nds" "?nds ! node_id nd = nd"
    by simp_all
  have lt: "sender_id < length ?nds" using ne by (simp add: sender_id_def)
  have v: "valid_path (length ?nds) (node_id nd) [sender_id]"
    using lt nd(3) by (simp add: valid_path_single)
  have h: "\<forall>j\<in>set [sender_id]. \<not> flags ?nds j"
    using s0 by (simp add: flags_def)
  have "resolve_decision ?nds (?nds ! node_id nd) [sender_id] ?f = Some (sender_value s)"
    by (rule resolve_validity [OF ids n bad fp(2) i(1) v _ h]) simp
  with fp(3) nd i show ?thesis by simp
qed

lemma commander_log_empty:
  assumes r: "reachable s" and ne: "nodes s \<noteq> []"
  shows "message_log (nodes s ! sender_id) = []"
proof -
  let ?lg = "message_log (nodes s ! sender_id)"
  from reachable_inv [OF r] ne
  have l: "logs_ok (nodes s) (sender_value s) (current_round s)"
    by (simp add: sim_inv_def)
  have lt: "sender_id < length (nodes s)" using ne by (simp add: sender_id_def)
  have nv: "\<not> valid_path n sender_id p" for n p
    by (cases p) (auto simp: valid_path_def)
  have "?lg \<noteq> kv # kvs" for kv kvs
  proof
    assume c: "?lg = kv # kvs"
    then have "fst kv \<in> set (map fst ?lg)" by simp
    from logs_ok_keys [OF l lt this] obtain p where p: "fst kv = path_str p" ..
    from logs_ok_map [OF l lt, of p] have "map_of ?lg (fst kv) = None"
      by (simp add: nv p)
    with c show False by (cases kv) simp
  qed
  then show ?thesis by (cases ?lg) blast+
qed

lemma commander_decision:
  assumes r: "reachable s" and fin: "simulation_state s = Finished" and ne: "nodes s \<noteq> []"
  shows "final_decision (nodes s ! sender_id) =
     (if max_faulty s = 0 then None else Some Retreat)"
proof -
  let ?c = "nodes s ! sender_id"
  note fp = finished_parts [OF r fin ne]
  have lt: "sender_id < length (nodes s)" using ne by (simp add: sender_id_def)
  from fp(1) have "\<not> is_faulty ?c" by (simp add: config_ok_def)
  with fp(3) lt have d: "final_decision ?c =
      resolve_decision (nodes s) ?c [sender_id] (max_faulty s)"
    by simp
  have lg: "message_log ?c = []" by (rule commander_log_empty [OF r ne])
  show ?thesis unfolding d
    by (cases "max_faulty s") (simp_all add: lg dict_has_def get_majority_def)
qed

subsection \<open>Two concrete runs are reachable\<close>

lemma reachable_run_honest: "reachable (rounds 2 gui_init)"
  by (intro reachable_rounds r_init)

lemma reachable_run_faulty:
  "reachable (rounds 2 (snd (on_canvas_click (\<lambda>j. j = 1) gui_init)))"
  by (intro reachable_rounds r_click r_init)

subsection \<open>Validity and agreement\<close>

text \<open>
  C1, as the claim states it, fails at the commander. The decision loop of the last round
  runs \<^verbatim>\<open>run_decision\<close> on every non-faulty node, the sender included, and the sender
  has an empty log. With N = 4, F = 1, the sender value \<open>Attack\<close> and no faulty node, the
  finished simulation shows \<open>Retreat\<close> as the final decision of the honest node 0.
\<close>

theorem commander_validity_counterexample:
  "simulation_state (rounds 2 gui_init) = Finished \<and>
   length (nodes (rounds 2 gui_init)) = 4 \<and> max_faulty (rounds 2 gui_init) = 1 \<and>
   \<not> is_faulty (nodes (rounds 2 gui_init) ! 0) \<and>
   sender_value (rounds 2 gui_init) = Attack \<and>
   final_decision (nodes (rounds 2 gui_init) ! 0) = Some Retreat"
  unfolding run_honest_eq by simp

text \<open>
  C1, amended. In every reachable Finished state (any F, any N that the setup accepts,
  that is N at least 3 F + 1, any choice of faulty nodes that the clicks allow, that is at
  most F nodes other than the sender), the final decision of every non-faulty node other
  than the sender is the sender value.
\<close>

theorem om_validity:
  assumes "reachable s" and "simulation_state s = Finished"
  shows "\<forall>nd\<in>set (nodes s). \<not> is_faulty nd \<and> node_id nd \<noteq> sender_id \<longrightarrow>
           final_decision nd = Some (sender_value s)"
  using lieutenant_decision [OF assms] by blast

theorem om_validity_witness:
  "reachable (rounds 2 (snd (on_canvas_click (\<lambda>j. j = 1) gui_init))) \<and>
   simulation_state (rounds 2 (snd (on_canvas_click (\<lambda>j. j = 1) gui_init))) = Finished \<and>
   map is_faulty (nodes (rounds 2 (snd (on_canvas_click (\<lambda>j. j = 1) gui_init))))
     = [False, True, False, False] \<and>
   final_decision (nodes (rounds 2 (snd (on_canvas_click (\<lambda>j. j = 1) gui_init))) ! 2)
     = Some Attack \<and>
   final_decision (nodes (rounds 2 (snd (on_canvas_click (\<lambda>j. j = 1) gui_init))) ! 3)
     = Some Attack"
proof -
  let ?t = "rounds 2 (snd (on_canvas_click (\<lambda>j. j = 1) gui_init))"
  have fin: "simulation_state ?t = Finished" unfolding run_faulty_eq by simp
  have sv: "sender_value ?t = Attack" unfolding run_faulty_eq by simp
  have fl: "map is_faulty (nodes ?t) = [False, True, False, False]"
    unfolding run_faulty_eq by simp
  have mem: "nodes ?t ! 2 \<in> set (nodes ?t)" "nodes ?t ! 3 \<in> set (nodes ?t)"
    unfolding run_faulty_eq by simp_all
  have hon: "\<not> is_faulty (nodes ?t ! 2) \<and> node_id (nodes ?t ! 2) \<noteq> sender_id"
    "\<not> is_faulty (nodes ?t ! 3) \<and> node_id (nodes ?t ! 3) \<noteq> sender_id"
    unfolding run_faulty_eq by (simp_all add: sender_id_def)
  note v = om_validity [OF reachable_run_faulty fin, unfolded sv]
  from v mem(1) hon(1) have d2: "final_decision (nodes ?t ! 2) = Some Attack" by blast
  from v mem(2) hon(2) have d3: "final_decision (nodes ?t ! 3) = Some Attack" by blast
  from reachable_run_faulty fin fl d2 d3 show ?thesis by (intro conjI)
qed

text \<open>
  C2, as the claim states it, fails between the commander and a lieutenant: with N = 4,
  F = 1, the sender value \<open>Attack\<close> and node 1 faulty, the honest nodes 0 and 2 finish
  with the decisions \<open>Retreat\<close> and \<open>Attack\<close>.
\<close>

theorem commander_agreement_counterexample:
  "simulation_state (rounds 2 (snd (on_canvas_click (\<lambda>j. j = 1) gui_init))) = Finished \<and>
   length (nodes (rounds 2 (snd (on_canvas_click (\<lambda>j. j = 1) gui_init)))) = 4 \<and>
   max_faulty (rounds 2 (snd (on_canvas_click (\<lambda>j. j = 1) gui_init))) = 1 \<and>
   map is_faulty (nodes (rounds 2 (snd (on_canvas_click (\<lambda>j. j = 1) gui_init))))
     = [False, True, False, False] \<and>
   final_decision (nodes (rounds 2 (snd (on_canvas_click (\<lambda>j. j = 1) gui_init))) ! 0)
     = Some Retreat \<and>
   final_decision (nodes (rounds 2 (snd (on_canvas_click (\<lambda>j. j = 1) gui_init))) ! 2)
     = Some Attack"
  unfolding run_faulty_eq by simp

text \<open>
  C2, amended. In every reachable Finished state the sender is not faulty (a click on the
  sender never sets its flag), and any two non-faulty nodes other than the sender have
  the same final decision.
\<close>

theorem om_agreement:
  assumes "reachable s" and "simulation_state s = Finished"
  shows "(nodes s \<noteq> [] \<longrightarrow> \<not> is_faulty (nodes s ! sender_id)) \<and>
         (\<forall>a\<in>set (nodes s). \<forall>b\<in>set (nodes s).
            \<not> is_faulty a \<and> node_id a \<noteq> sender_id \<and>
            \<not> is_faulty b \<and> node_id b \<noteq> sender_id \<longrightarrow>
            final_decision a = final_decision b)"
proof (intro conjI impI ballI)
  assume "nodes s \<noteq> []"
  from finished_parts(1) [OF assms this] show "\<not> is_faulty (nodes s ! sender_id)"
    by (simp add: config_ok_def)
next
  fix a b
  assume "a \<in> set (nodes s)" "b \<in> set (nodes s)"
    and "\<not> is_faulty a \<and> node_id a \<noteq> sender_id \<and> \<not> is_faulty b \<and> node_id b \<noteq> sender_id"
  then show "final_decision a = final_decision b"
    using lieutenant_decision [OF assms, of a] lieutenant_decision [OF assms, of b] by simp
qed

theorem om_agreement_witness:
  "reachable (rounds 2 (snd (on_canvas_click (\<lambda>j. j = 1) gui_init))) \<and>
   simulation_state (rounds 2 (snd (on_canvas_click (\<lambda>j. j = 1) gui_init))) = Finished \<and>
   \<not> is_faulty (nodes (rounds 2 (snd (on_canvas_click (\<lambda>j. j = 1) gui_init))) ! 0) \<and>
   final_decision (nodes (rounds 2 (snd (on_canvas_click (\<lambda>j. j = 1) gui_init))) ! 2) =
   final_decision (nodes (rounds 2 (snd (on_canvas_click (\<lambda>j. j = 1) gui_init))) ! 3)"
proof -
  let ?t = "rounds 2 (snd (on_canvas_click (\<lambda>j. j = 1) gui_init))"
  have fin: "simulation_state ?t = Finished" unfolding run_faulty_eq by simp
  have ne: "nodes ?t \<noteq> []" unfolding run_faulty_eq by simp
  have mem: "nodes ?t ! 2 \<in> set (nodes ?t)" "nodes ?t ! 3 \<in> set (nodes ?t)"
    unfolding run_faulty_eq by simp_all
  have hon: "\<not> is_faulty (nodes ?t ! 2) \<and> node_id (nodes ?t ! 2) \<noteq> sender_id \<and>
      \<not> is_faulty (nodes ?t ! 3) \<and> node_id (nodes ?t ! 3) \<noteq> sender_id"
    unfolding run_faulty_eq by (simp add: sender_id_def)
  note ag = om_agreement [OF reachable_run_faulty fin]
  from ag ne have c: "\<not> is_faulty (nodes ?t ! 0)" by (simp add: sender_id_def)
  from ag mem hon have "final_decision (nodes ?t ! 2) = final_decision (nodes ?t ! 3)"
    by blast
  with reachable_run_faulty fin c show ?thesis by (intro conjI)
qed

subsection \<open>Paths\<close>

text \<open>
  C5. In every reachable state, each message of the list \<^verbatim>\<open>self.messages\<close> (the
  messages that the last round created and delivered) has a path whose length is the
  round counter, without a repeated id and without the id of the recipient; when there
  are such messages the round counter lies between 1 and F + 1. The same holds for what
  the deliveries leave behind: every key of a node's log is the text of a path whose
  length is between 1 and the round counter, which repeats no id and does not contain
  the id of the node.
\<close>

theorem path_invariant:
  assumes "reachable s"
  shows "(\<forall>m\<in>set (messages s).
            length (mpath m) = current_round s \<and> distinct (mpath m) \<and>
            to_node m \<notin> set (mpath m)) \<and>
         (messages s \<noteq> [] \<longrightarrow> 1 \<le> current_round s \<and> current_round s \<le> max_faulty s + 1) \<and>
         (\<forall>nd\<in>set (nodes s). \<forall>k\<in>set (map fst (message_log nd)).
            \<exists>p. k = path_str p \<and> 1 \<le> length p \<and> length p \<le> current_round s \<and>
                distinct p \<and> node_id nd \<notin> set p)"
proof (cases "nodes s = []")
  case True
  with reachable_inv [OF assms] show ?thesis by (simp add: sim_inv_def)
next
  case False
  with reachable_inv [OF assms] have c: "config_ok s" and p: "phase_ok s"
    and m: "messages_ok s" and l: "logs_ok (nodes s) (sender_value s) (current_round s)"
    by (simp_all add: sim_inv_def)
  from c have ids: "map node_id (nodes s) = [0..<length (nodes s)]"
    and dk: "\<forall>nd\<in>set (nodes s). distinct (map fst (message_log nd))"
    by (simp_all add: config_ok_def)
  have a: "\<forall>m\<in>set (messages s).
      length (mpath m) = current_round s \<and> distinct (mpath m) \<and> to_node m \<notin> set (mpath m)"
    using m by (simp add: messages_ok_def)
  have b: "messages s \<noteq> [] \<longrightarrow> 1 \<le> current_round s \<and> current_round s \<le> max_faulty s + 1"
    using p by (cases "simulation_state s") (simp_all add: phase_ok_def)
  have d: "\<forall>nd\<in>set (nodes s). \<forall>k\<in>set (map fst (message_log nd)).
      \<exists>p. k = path_str p \<and> 1 \<le> length p \<and> length p \<le> current_round s \<and>
          distinct p \<and> node_id nd \<notin> set p"
  proof (intro ballI)
    fix nd k assume nd: "nd \<in> set (nodes s)" and "k \<in> set (map fst (message_log nd))"
    then obtain kv where kv: "kv \<in> set (message_log nd)" "k = fst kv" by auto
    from log_key [OF ids dk l nd kv(1)] obtain p where p: "p \<noteq> []" "fst kv = path_str p"
      by blast
    with kv have "(path_str p, snd kv) \<in> set (message_log nd)"
      by (metis prod.collapse)
    from log_entry [OF ids dk l nd this]
    have "valid_path (length (nodes s)) (node_id nd) p" "length p \<le> current_round s"
      by simp_all
    with p have "k = path_str p \<and> 1 \<le> length p \<and> length p \<le> current_round s \<and>
        distinct p \<and> node_id nd \<notin> set p"
      using kv(2) by (cases p) (simp_all add: valid_path_def)
    then show "\<exists>p. k = path_str p \<and> 1 \<le> length p \<and> length p \<le> current_round s \<and>
        distinct p \<and> node_id nd \<notin> set p" ..
  qed
  from a b d show ?thesis by (intro conjI)
qed

theorem path_invariant_witness:
  "reachable (rounds 2 gui_init) \<and>
   messages (rounds 2 gui_init) ! 1 =
     \<lparr>from_node = 1, to_node = 3, mvalue = Attack, mpath = [0, 1]\<rparr> \<and>
   current_round (rounds 2 gui_init) = 2 \<and> max_faulty (rounds 2 gui_init) = 1 \<and>
   length (mpath (messages (rounds 2 gui_init) ! 1)) = current_round (rounds 2 gui_init) \<and>
   distinct (mpath (messages (rounds 2 gui_init) ! 1)) \<and>
   to_node (messages (rounds 2 gui_init) ! 1) \<notin> set (mpath (messages (rounds 2 gui_init) ! 1))"
proof -
  let ?t = "rounds 2 gui_init"
  have r: "current_round ?t = 2" unfolding run_honest_eq by simp
  have f: "max_faulty ?t = 1" unfolding run_honest_eq by simp
  have m: "messages ?t ! 1 = \<lparr>from_node = 1, to_node = 3, mvalue = Attack, mpath = [0, 1]\<rparr>"
    unfolding run_honest_eq by simp
  have mem: "messages ?t ! 1 \<in> set (messages ?t)" unfolding run_honest_eq by simp
  from path_invariant [OF reachable_run_honest]
  have "\<forall>m\<in>set (messages ?t).
      length (mpath m) = current_round ?t \<and> distinct (mpath m) \<and>
      to_node m \<notin> set (mpath m)"
    by (rule conjunct1)
  with mem have "length (mpath (messages ?t ! 1)) = current_round ?t \<and>
      distinct (mpath (messages ?t ! 1)) \<and>
      to_node (messages ?t ! 1) \<notin> set (mpath (messages ?t ! 1))"
    by blast
  with reachable_run_honest m r f show ?thesis by (intro conjI) simp_all
qed

subsection \<open>The commander\<close>

text \<open>
  C10. In every reachable state with nodes, every message starts its path at the sender
  and goes to a node that is neither on the path nor the sender, the log of the sender is
  empty and the sender is not faulty. In the Finished phase its final decision is
  \<open>Retreat\<close>, whatever the sender value, for every F that the control offers (F = 1
  and F = 2, here every F from 1 on).
\<close>

theorem commander_decides_retreat:
  assumes "reachable s" and "nodes s \<noteq> []"
  shows "(\<forall>m\<in>set (messages s).
            hd (mpath m) = sender_id \<and> to_node m \<notin> set (mpath m) \<and>
            to_node m \<noteq> sender_id) \<and>
         message_log (nodes s ! sender_id) = [] \<and>
         \<not> is_faulty (nodes s ! sender_id) \<and>
         (simulation_state s = Finished \<and> 1 \<le> max_faulty s \<longrightarrow>
            final_decision (nodes s ! sender_id) = Some Retreat)"
proof -
  from reachable_inv [OF assms(1)] assms(2) have c: "config_ok s" and m: "messages_ok s"
    by (simp_all add: sim_inv_def)
  have a: "\<forall>m\<in>set (messages s).
      hd (mpath m) = sender_id \<and> to_node m \<notin> set (mpath m) \<and> to_node m \<noteq> sender_id"
    using m by (simp add: messages_ok_def)
  have b: "message_log (nodes s ! sender_id) = []"
    by (rule commander_log_empty [OF assms])
  have d: "\<not> is_faulty (nodes s ! sender_id)" using c by (simp add: config_ok_def)
  have e: "simulation_state s = Finished \<and> 1 \<le> max_faulty s \<longrightarrow>
      final_decision (nodes s ! sender_id) = Some Retreat"
    using commander_decision [OF assms(1) _ assms(2)] by auto
  from a b d e show ?thesis by (intro conjI)
qed

theorem commander_decides_retreat_witness:
  "reachable (rounds 2 gui_init) \<and> nodes (rounds 2 gui_init) \<noteq> [] \<and>
   simulation_state (rounds 2 gui_init) = Finished \<and> max_faulty (rounds 2 gui_init) = 1 \<and>
   sender_value (rounds 2 gui_init) = Attack \<and>
   message_log (nodes (rounds 2 gui_init) ! sender_id) = [] \<and>
   final_decision (nodes (rounds 2 gui_init) ! sender_id) = Some Retreat"
proof -
  have ne: "nodes (rounds 2 gui_init) \<noteq> []" unfolding run_honest_eq by simp
  have fin: "simulation_state (rounds 2 gui_init) = Finished" unfolding run_honest_eq by simp
  have f: "max_faulty (rounds 2 gui_init) = 1" unfolding run_honest_eq by simp
  have sv: "sender_value (rounds 2 gui_init) = Attack" unfolding run_honest_eq by simp
  note c = commander_decides_retreat [OF reachable_run_honest ne]
  from c have lg: "message_log (nodes (rounds 2 gui_init) ! sender_id) = []" by blast
  from c fin f have d: "final_decision (nodes (rounds 2 gui_init) ! sender_id) = Some Retreat"
    by simp
  from reachable_run_honest ne fin f sv lg d show ?thesis by (intro conjI)
qed

subsection \<open>Determinism\<close>

lemma ready_node:
  assumes inv: "sim_inv s" and rdy: "simulation_state s = Ready" and i: "i < length (nodes s)"
  shows "nodes s ! i =
     \<lparr>node_id = i, is_sender = (i = sender_id), is_faulty = is_faulty (nodes s ! i),
      message_log = [], final_decision = None\<rparr>"
proof -
  from i have ne: "nodes s \<noteq> []" by auto
  with inv have c: "config_ok s" and p: "phase_ok s"
    and l: "logs_ok (nodes s) (sender_value s) (current_round s)"
    by (simp_all add: sim_inv_def)
  from c have ids: "map node_id (nodes s) = [0..<length (nodes s)]"
    and ms: "map is_sender (nodes s) = map (\<lambda>i. i = sender_id) [0..<length (nodes s)]"
    by (simp_all add: config_ok_def)
  have a: "node_id (nodes s ! i) = i" using ids_nth [OF ids i] .
  have "is_sender (nodes s ! i) = map is_sender (nodes s) ! i" using i by simp
  also have "\<dots> = (i = sender_id)" unfolding ms using i by simp
  finally have b: "is_sender (nodes s ! i) = (i = sender_id)" .
  from p rdy have r0: "current_round s = 0"
    and fd: "\<forall>nd\<in>set (nodes s). final_decision nd = None"
    by (simp_all add: phase_ok_def)
  from l r0 i have d: "message_log (nodes s ! i) = []" by (simp add: logs_ok_0)
  from fd i have e: "final_decision (nodes s ! i) = None" by simp
  from a b d e show ?thesis by (cases "nodes s ! i") simp
qed

lemma ready_state_eq:
  assumes i1: "sim_inv s1" and i2: "sim_inv s2"
    and r1: "simulation_state s1 = Ready" and r2: "simulation_state s2 = Ready"
    and ne: "nodes s1 \<noteq> []"
    and len: "length (nodes s1) = length (nodes s2)"
    and f: "max_faulty s1 = max_faulty s2"
    and sv: "sender_value s1 = sender_value s2"
    and fl: "\<forall>i<length (nodes s1). is_faulty (nodes s1 ! i) = is_faulty (nodes s2 ! i)"
  shows "s1 = s2"
proof -
  from ne len have ne2: "nodes s2 \<noteq> []" by auto
  have nds: "nodes s1 = nodes s2"
  proof (rule nth_equalityI [OF len])
    fix i assume i: "i < length (nodes s1)"
    with len have i2': "i < length (nodes s2)" by simp
    from ready_node [OF i1 r1 i] ready_node [OF i2 r2 i2'] fl i
    show "nodes s1 ! i = nodes s2 ! i" by simp
  qed
  from i1 ne have c1: "config_ok s1" and p1: "phase_ok s1" by (simp_all add: sim_inv_def)
  from i2 ne2 have c2: "config_ok s2" and p2: "phase_ok s2" by (simp_all add: sim_inv_def)
  from c1 c2 nds have cf: "current_faulty s1 = current_faulty s2"
    by (simp add: config_ok_def)
  from p1 r1 p2 r2 nds have rest: "current_round s1 = current_round s2"
    "messages s1 = messages s2" "total_nodes s1 = total_nodes s2"
    by (simp_all add: phase_ok_def)
  from nds cf rest f sv r1 r2 show ?thesis by (cases s1, cases s2) simp
qed

text \<open>
  C9. Two reachable Ready states with nodes that agree in the number of nodes, in F, in
  the sender value and in the faulty flag of every node are the same state, whatever
  sequence of setups, clicks and rounds led to each; so after any number of rounds they
  have the same logs (entries in the same order) and the same final decisions.
\<close>

theorem determinism:
  assumes "reachable s1" and "reachable s2"
    and "simulation_state s1 = Ready" and "simulation_state s2 = Ready"
    and "nodes s1 \<noteq> []"
    and "length (nodes s1) = length (nodes s2)"
    and "max_faulty s1 = max_faulty s2"
    and "sender_value s1 = sender_value s2"
    and "\<forall>i<length (nodes s1). is_faulty (nodes s1 ! i) = is_faulty (nodes s2 ! i)"
  shows "map message_log (nodes (rounds k s1)) = map message_log (nodes (rounds k s2)) \<and>
         map final_decision (nodes (rounds k s1)) = map final_decision (nodes (rounds k s2)) \<and>
         rounds k s1 = rounds k s2"
proof -
  have "s1 = s2"
    using assms(3-9) by (intro ready_state_eq reachable_inv assms(1,2))
  then show ?thesis by simp
qed

lemma reset_state_eq:
  "snd (on_canvas_click (\<lambda>j. j = 1)
     (snd (setup_simulation 1 (Some 4) Attack (rounds 2 gui_init)))) =
   \<lparr>nodes = [\<lparr>node_id = 0, is_sender = True, is_faulty = False, message_log = [],
              final_decision = None\<rparr>,
             \<lparr>node_id = 1, is_sender = False, is_faulty = True, message_log = [],
              final_decision = None\<rparr>, new_node 2, new_node 3],
    messages = [], max_faulty = 1, total_nodes = 4, current_faulty = 1,
    sender_value = Attack, current_round = 0, simulation_state = Ready\<rparr>"
  unfolding run_honest_eq
  by (simp add: setup_simulation_def on_canvas_click_def Let_def new_node_def sender_id_def
      upt_rec)

lemma click_state_eq:
  "snd (on_canvas_click (\<lambda>j. j = 1) gui_init) =
   \<lparr>nodes = [\<lparr>node_id = 0, is_sender = True, is_faulty = False, message_log = [],
              final_decision = None\<rparr>,
             \<lparr>node_id = 1, is_sender = False, is_faulty = True, message_log = [],
              final_decision = None\<rparr>, new_node 2, new_node 3],
    messages = [], max_faulty = 1, total_nodes = 4, current_faulty = 1,
    sender_value = Attack, current_round = 0, simulation_state = Ready\<rparr>"
  by (simp add: gui_init_eq on_canvas_click_def new_node_def)

theorem determinism_witness:
  "reachable (snd (on_canvas_click (\<lambda>j. j = 1) gui_init)) \<and>
   reachable (snd (on_canvas_click (\<lambda>j. j = 1)
     (snd (setup_simulation 1 (Some 4) Attack (rounds 2 gui_init))))) \<and>
   rounds 2 (snd (on_canvas_click (\<lambda>j. j = 1)
     (snd (setup_simulation 1 (Some 4) Attack (rounds 2 gui_init))))) =
   rounds 2 (snd (on_canvas_click (\<lambda>j. j = 1) gui_init))"
proof -
  let ?a = "snd (on_canvas_click (\<lambda>j. j = 1)
     (snd (setup_simulation 1 (Some 4) Attack (rounds 2 gui_init))))"
  let ?b = "snd (on_canvas_click (\<lambda>j. j = 1) gui_init)"
  have ra: "reachable ?a" by (intro r_click r_setup reachable_run_honest)
  have rb: "reachable ?b" by (intro r_click r_init)
  have h: "simulation_state ?a = Ready" "simulation_state ?b = Ready" "nodes ?a \<noteq> []"
    "length (nodes ?a) = length (nodes ?b)" "max_faulty ?a = max_faulty ?b"
    "sender_value ?a = sender_value ?b"
    "\<forall>i<length (nodes ?a). is_faulty (nodes ?a ! i) = is_faulty (nodes ?b ! i)"
    unfolding reset_state_eq click_state_eq by simp_all
  from determinism [OF ra rb h, of 2] have "rounds 2 ?a = rounds 2 ?b" by (rule conjunct2 [OF conjunct2])
  with ra rb show ?thesis by (intro conjI)
qed

end
